theory Spec2Isabelle
  imports Main "HOL-Library.Sublist"
begin

section \<open>Python values, errors and dictionaries\<close>

text \<open>
  The documents handled by \<^verbatim>\<open>berserk/utils.py\<close> are what JSON deserialisation
  produces: \<^verbatim>\<open>None\<close>, booleans, integers, strings, lists and dictionaries with
  string keys. A dictionary keeps its insertion order, so it is an association list;
  its keys are pairwise distinct.
\<close>

datatype pyval =
    PNone
  | PBool bool
  | PInt int
  | PStr string
  | PList "pyval list"
  | PDict "(string \<times> pyval) list"

text \<open>The exceptions that the modelled code can raise; \<open>KeyError\<close> carries the key.\<close>

datatype error =
    KeyError string
  | TypeError
  | ValueError
  | ZeroDivisionError
  | OverflowError
  | OSError
  | AttributeError

fun is_KeyError :: "error \<Rightarrow> bool" where
  "is_KeyError (KeyError k) = True"
| "is_KeyError e = False"

type_synonym 'v dict = "(string \<times> 'v) list"

text \<open>\<^verbatim>\<open>d[k] = v\<close>: an existing key keeps its position, a new key goes last.\<close>

fun dict_set :: "'v dict \<Rightarrow> string \<Rightarrow> 'v \<Rightarrow> 'v dict" where
  "dict_set [] k v = [(k, v)]"
| "dict_set ((k', v') # kvs) k v =
     (if k' = k then (k, v) # kvs else (k', v') # dict_set kvs k v)"

text \<open>
  \<^verbatim>\<open>data[key]\<close> with a string key: a dictionary looks the key up and raises
  \<^verbatim>\<open>KeyError\<close> when it is absent; a list or a string accepts only integer indices
  and every other value is not subscriptable, which is a \<^verbatim>\<open>TypeError\<close>.
\<close>

fun py_getitem :: "pyval \<Rightarrow> string \<Rightarrow> error + pyval" where
  "py_getitem (PDict kvs) k =
     (case map_of kvs k of None \<Rightarrow> Inl (KeyError k) | Some v \<Rightarrow> Inr v)"
| "py_getitem v k = Inl TypeError"

section \<open>\<^verbatim>\<open>str.split(sep)\<close>\<close>

text \<open>
  \<^verbatim>\<open>s.split(sep)\<close> scans \<open>s\<close> from the left; at each occurrence of \<open>sep\<close> it closes
  the current piece and continues behind the occurrence. An empty separator raises
  \<^verbatim>\<open>ValueError\<close>.
\<close>

function split_scan :: "string \<Rightarrow> string \<Rightarrow> string \<Rightarrow> string list" where
  "split_scan sep acc s =
     (if sep \<noteq> [] \<and> prefix sep s then rev acc # split_scan sep [] (drop (length sep) s)
      else (case s of [] \<Rightarrow> [rev acc] | c # cs \<Rightarrow> split_scan sep (c # acc) cs))"
  by pat_completeness auto
termination
  by (relation "measure (\<lambda>(sep, acc, s). length s)") (auto simp: prefix_def)

declare split_scan.simps [simp del]

definition str_split :: "string \<Rightarrow> string \<Rightarrow> error + string list" where
  "str_split s sep = (if sep = [] then Inl ValueError else Inr (split_scan sep [] s))"


section \<open>\<^verbatim>\<open>build_adapter\<close>\<close>

text \<open>
  \<^verbatim>\<open>
  def get(data, location):
      for key in location.split(sep):
          data = data[key]
      return data
  \<close>
\<close>

fun get_loop :: "pyval \<Rightarrow> string list \<Rightarrow> error + pyval" where
  "get_loop data [] = Inr data"
| "get_loop data (key # keys) =
     (case py_getitem data key of Inl e \<Rightarrow> Inl e | Inr v \<Rightarrow> get_loop v keys)"

definition get :: "string \<Rightarrow> pyval \<Rightarrow> string \<Rightarrow> error + pyval" where
  "get sep data location =
     (case str_split location sep of Inl e \<Rightarrow> Inl e | Inr keys \<Rightarrow> get_loop data keys)"

text \<open>
  \<^verbatim>\<open>
  def adapter(data, default=None, fill=False):
      result = {}
      for key, loc in mapper.items():
          try:
              result[key] = get(data, loc)
          except KeyError:
              if fill:
                  result[key] = default
      return result
  \<close>
  Only \<^verbatim>\<open>KeyError\<close> is caught; every other exception leaves the loop.
\<close>

fun adapter_loop ::
  "string \<Rightarrow> pyval \<Rightarrow> pyval \<Rightarrow> bool \<Rightarrow> string dict \<Rightarrow> pyval dict \<Rightarrow> error + pyval dict" where
  "adapter_loop sep data dflt fill [] result = Inr result"
| "adapter_loop sep data dflt fill ((key, loc) # items) result =
     (case get sep data loc of
        Inr v \<Rightarrow> adapter_loop sep data dflt fill items (dict_set result key v)
      | Inl (KeyError k) \<Rightarrow>
          adapter_loop sep data dflt fill items
            (if fill then dict_set result key dflt else result)
      | Inl e \<Rightarrow> Inl e)"

definition adapter ::
  "string dict \<Rightarrow> string \<Rightarrow> pyval \<Rightarrow> pyval \<Rightarrow> bool \<Rightarrow> error + pyval dict" where
  "adapter mapper sep data dflt fill = adapter_loop sep data dflt fill mapper []"

definition build_adapter ::
  "string dict \<Rightarrow> string \<Rightarrow> (pyval \<Rightarrow> pyval \<Rightarrow> bool \<Rightarrow> error + pyval dict)" where
  "build_adapter mapper sep = adapter mapper sep"

section \<open>The store\<close>

text \<open>
  Records and lists are objects that a caller and a converter share by reference. The
  store maps addresses to the objects they hold; the addresses below \<open>next_free\<close> are
  allocated, and a new object gets the address \<open>next_free\<close>.
\<close>

type_synonym addr = nat

record heap =
  cells :: "addr \<Rightarrow> pyval"
  next_free :: addr

definition heap_write :: "heap \<Rightarrow> addr \<Rightarrow> pyval \<Rightarrow> heap" where
  "heap_write h a v = h\<lparr>cells := (cells h)(a := v)\<rparr>"

definition heap_alloc :: "heap \<Rightarrow> pyval \<Rightarrow> addr \<times> heap" where
  "heap_alloc h v = (next_free h, \<lparr>cells = (cells h)(next_free h := v), next_free = Suc (next_free h)\<rparr>)"

text \<open>\<^verbatim>\<open>data[k] = v\<close> on an object: only a dictionary takes a string key.\<close>

fun py_setitem :: "pyval \<Rightarrow> string \<Rightarrow> pyval \<Rightarrow> error + pyval" where
  "py_setitem (PDict kvs) k v = Inr (PDict (dict_set kvs k v))"
| "py_setitem d k v = Inl TypeError"

text \<open>
  The adapter closes over the variables \<open>mapper\<close> and \<open>sep\<close>: \<open>mapper\<close> refers to a
  dictionary object in the store, \<open>sep\<close> holds a string. A call runs the statements of
  \<^verbatim>\<open>adapter\<close> on the store: it allocates the result, reads the items of the mapping
  object and the document at \<open>data\<close>, and stores each field into the result object. It
  returns the address of the result, or the error, together with the closure variables
  and the store as the call leaves them.
\<close>

record closure =
  closure_mapper :: addr
  closure_sep :: string

text \<open>\<^verbatim>\<open>mapper.items()\<close>: only a dictionary has items.\<close>

fun py_items :: "pyval \<Rightarrow> error + (string \<times> pyval) list" where
  "py_items (PDict kvs) = Inr kvs"
| "py_items v = Inl AttributeError"

text \<open>\<^verbatim>\<open>get(data, loc)\<close> for a location read from the mapping object: only a string splits.\<close>

fun get_at :: "string \<Rightarrow> pyval \<Rightarrow> pyval \<Rightarrow> error + pyval" where
  "get_at sep data (PStr location) = get sep data location"
| "get_at sep data v = Inl AttributeError"

text \<open>\<^verbatim>\<open>result[key] = v\<close> on the object at \<open>r\<close>.\<close>

definition store_item :: "heap \<Rightarrow> addr \<Rightarrow> string \<Rightarrow> pyval \<Rightarrow> error + heap" where
  "store_item h r key v =
     (case py_setitem (cells h r) key v of Inl e \<Rightarrow> Inl e | Inr d \<Rightarrow> Inr (heap_write h r d))"

text \<open>The body of the \<^verbatim>\<open>try\<close>: \<^verbatim>\<open>result[key] = get(data, loc)\<close>.\<close>

definition adapter_body ::
  "closure \<Rightarrow> addr \<Rightarrow> string \<Rightarrow> pyval \<Rightarrow> addr \<Rightarrow> heap \<Rightarrow> error + heap" where
  "adapter_body c data key loc r h =
     (case get_at (closure_sep c) (cells h data) loc of
        Inl e \<Rightarrow> Inl e
      | Inr v \<Rightarrow> store_item h r key v)"

fun adapter_items ::
  "closure \<Rightarrow> addr \<Rightarrow> pyval \<Rightarrow> bool \<Rightarrow> (string \<times> pyval) list \<Rightarrow> addr \<Rightarrow> heap \<Rightarrow>
   (error + addr) \<times> closure \<times> heap" where
  "adapter_items c data dflt fill [] r h = (Inr r, c, h)"
| "adapter_items c data dflt fill ((key, loc) # items) r h =
     (case adapter_body c data key loc r h of
        Inr h' \<Rightarrow> adapter_items c data dflt fill items r h'
      | Inl (KeyError k) \<Rightarrow>
          (if fill
           then (case store_item h r key dflt of
                   Inl e \<Rightarrow> (Inl e, c, h)
                 | Inr h' \<Rightarrow> adapter_items c data dflt fill items r h')
           else adapter_items c data dflt fill items r h)
      | Inl e \<Rightarrow> (Inl e, c, h))"

definition adapter_call ::
  "closure \<Rightarrow> addr \<Rightarrow> pyval \<Rightarrow> bool \<Rightarrow> heap \<Rightarrow> (error + addr) \<times> closure \<times> heap" where
  "adapter_call c data dflt fill h =
     (let (r, h1) = heap_alloc h (PDict []) in
      case py_items (cells h1 (closure_mapper c)) of
        Inl e \<Rightarrow> (Inl e, c, h1)
      | Inr items \<Rightarrow> adapter_items c data dflt fill items r h1)"

section \<open>\<^verbatim>\<open>inner\<close>\<close>

text \<open>
  The body of the \<^verbatim>\<open>try\<close>: \<^verbatim>\<open>data[k] = func(data[k])\<close>. The converted function
  \<open>func\<close> returns a value or raises.
\<close>

definition convert_body ::
  "(pyval \<Rightarrow> error + pyval) \<Rightarrow> string \<Rightarrow> addr \<Rightarrow> heap \<Rightarrow> error + heap" where
  "convert_body func k data h =
     (case py_getitem (cells h data) k of
        Inl e \<Rightarrow> Inl e
      | Inr v \<Rightarrow>
          (case func v of
             Inl e \<Rightarrow> Inl e
           | Inr w \<Rightarrow>
               (case py_setitem (cells h data) k w of
                  Inl e \<Rightarrow> Inl e
                | Inr d \<Rightarrow> Inr (heap_write h data d))))"

text \<open>
  \<^verbatim>\<open>
  def convert(data):
      for k in keys:
          try:
              data[k] = func(data[k])
          except KeyError:
              pass  # normal for keys to not be present sometimes
      return data
  \<close>
\<close>

fun inner_convert ::
  "(pyval \<Rightarrow> error + pyval) \<Rightarrow> string list \<Rightarrow> addr \<Rightarrow> heap \<Rightarrow> (error + addr) \<times> heap" where
  "inner_convert func [] data h = (Inr data, h)"
| "inner_convert func (k # keys) data h =
     (case convert_body func k data h of
        Inr h' \<Rightarrow> inner_convert func keys data h'
      | Inl (KeyError x) \<Rightarrow> inner_convert func keys data h
      | Inl e \<Rightarrow> (Inl e, h))"

definition inner ::
  "(pyval \<Rightarrow> error + pyval) \<Rightarrow> string list \<Rightarrow> (addr \<Rightarrow> heap \<Rightarrow> (error + addr) \<times> heap)" where
  "inner func keys = inner_convert func keys"

section \<open>\<^verbatim>\<open>listing\<close>\<close>

text \<open>
  \<^verbatim>\<open>for item in items\<close>: a list yields its elements, a string its characters, a
  dictionary its keys; the other values are not iterable.
\<close>

fun py_iter :: "pyval \<Rightarrow> error + pyval list" where
  "py_iter (PList xs) = Inr xs"
| "py_iter (PStr s) = Inr (map (\<lambda>c. PStr [c]) s)"
| "py_iter (PDict kvs) = Inr (map (\<lambda>kv. PStr (fst kv)) kvs)"
| "py_iter v = Inl TypeError"

text \<open>\<^verbatim>\<open>result.append(y)\<close> on the object at \<open>r\<close>.\<close>

definition list_append :: "heap \<Rightarrow> addr \<Rightarrow> pyval \<Rightarrow> heap" where
  "list_append h r y =
     (case cells h r of PList ys \<Rightarrow> heap_write h r (PList (ys @ [y])) | v \<Rightarrow> h)"

fun listing_loop ::
  "(pyval \<Rightarrow> error + pyval) \<Rightarrow> pyval list \<Rightarrow> addr \<Rightarrow> heap \<Rightarrow> (error + addr) \<times> heap" where
  "listing_loop func [] r h = (Inr r, h)"
| "listing_loop func (item # items) r h =
     (case func item of
        Inl e \<Rightarrow> (Inl e, h)
      | Inr y \<Rightarrow> listing_loop func items r (list_append h r y))"

text \<open>
  \<^verbatim>\<open>
  def convert(items):
      result = []
      for item in items:
          result.append(func(item))
      return result
  \<close>
\<close>

definition listing_convert ::
  "(pyval \<Rightarrow> error + pyval) \<Rightarrow> addr \<Rightarrow> heap \<Rightarrow> (error + addr) \<times> heap" where
  "listing_convert func items h =
     (let (r, h1) = heap_alloc h (PList []) in
      case py_iter (cells h1 items) of
        Inl e \<Rightarrow> (Inl e, h1)
      | Inr xs \<Rightarrow> listing_loop func xs r h1)"

definition listing :: "(pyval \<Rightarrow> error + pyval) \<Rightarrow> (addr \<Rightarrow> heap \<Rightarrow> (error + addr) \<times> heap)" where
  "listing func = listing_convert func"

section \<open>Floating point numbers\<close>

text \<open>
  A Python \<^verbatim>\<open>float\<close> is an IEEE 754 binary64 number. \<open>Finite s m q\<close> is the number
  \<open>(-1)\<^sup>s \<cdot> m \<cdot> 2\<^sup>q\<close> with \<open>2\<^sup>5\<^sup>2 \<le> m < 2\<^sup>5\<^sup>3\<close> and \<open>-1074 \<le> q \<le> 971\<close> (normal) or
  \<open>m < 2\<^sup>5\<^sup>2\<close> and \<open>q = -1074\<close> (subnormal and zero), so that every number has one
  representation.
\<close>

datatype double = Finite bool int int | Infinity bool | NaN

function bit_length :: "int \<Rightarrow> nat" where
  "bit_length n = (if n \<le> 0 then 0 else Suc (bit_length (n div 2)))"
  by pat_completeness auto
termination
  by (relation "measure nat") auto

declare bit_length.simps [simp del]

text \<open>\<open>floor_log2 n d\<close> is the \<open>e\<close> with \<open>2\<^sup>e \<le> n / d < 2\<^sup>e\<^sup>+\<^sup>1\<close>, for positive \<open>n\<close> and \<open>d\<close>.\<close>

definition floor_log2 :: "int \<Rightarrow> int \<Rightarrow> int" where
  "floor_log2 n d =
     (let b = int (bit_length n) - int (bit_length d) in
      if (if 0 \<le> b then d * 2 ^ nat b \<le> n else d \<le> n * 2 ^ nat (- b)) then b else b - 1)"

text \<open>
  The binary64 number nearest to \<open>(-1)\<^sup>s \<cdot> n / d\<close> (\<open>0 \<le> n\<close>, \<open>0 < d\<close>), ties to the even
  mantissa: the rounding of every arithmetic operation.
\<close>

definition round_ratio :: "bool \<Rightarrow> int \<Rightarrow> int \<Rightarrow> double" where
  "round_ratio s n d =
     (if n = 0 then Finite s 0 (- 1074)
      else
        let e = floor_log2 n d;
            q = max (e - 52) (- 1074);
            num = (if q < 0 then n * 2 ^ nat (- q) else n);
            den = (if q < 0 then d else d * 2 ^ nat q);
            m0 = num div den;
            r = num mod den;
            m = (if den < 2 * r \<or> (2 * r = den \<and> odd m0) then m0 + 1 else m0);
            m' = (if m = 2 ^ 53 then 2 ^ 52 else m);
            q' = (if m = 2 ^ 53 then q + 1 else q)
        in if 971 < q' then Infinity s else Finite s m' q')"

definition round_dyadic :: "bool \<Rightarrow> int \<Rightarrow> int \<Rightarrow> double" where
  "round_dyadic s n q =
     (if 0 \<le> q then round_ratio s (n * 2 ^ nat q) 1 else round_ratio s n (2 ^ nat (- q)))"

text \<open>\<^verbatim>\<open>float(n)\<close> of an integer.\<close>

definition double_of_int :: "int \<Rightarrow> error + double" where
  "double_of_int n =
     (case round_ratio (n < 0) \<bar>n\<bar> 1 of Infinity s \<Rightarrow> Inl OverflowError | x \<Rightarrow> Inr x)"

text \<open>\<^verbatim>\<open>a / b\<close> of two integers: the quotient, rounded once.\<close>

definition int_true_div :: "int \<Rightarrow> int \<Rightarrow> error + double" where
  "int_true_div a b =
     (if b = 0 then Inl ZeroDivisionError
      else case round_ratio ((a < 0) \<noteq> (b < 0)) \<bar>a\<bar> \<bar>b\<bar> of
             Infinity s \<Rightarrow> Inl OverflowError
           | x \<Rightarrow> Inr x)"

fun double_mul :: "double \<Rightarrow> double \<Rightarrow> double" where
  "double_mul (Finite s1 m1 q1) (Finite s2 m2 q2) = round_dyadic (s1 \<noteq> s2) (m1 * m2) (q1 + q2)"
| "double_mul (Finite s1 m1 q1) (Infinity s2) = (if m1 = 0 then NaN else Infinity (s1 \<noteq> s2))"
| "double_mul (Infinity s1) (Finite s2 m2 q2) = (if m2 = 0 then NaN else Infinity (s1 \<noteq> s2))"
| "double_mul (Infinity s1) (Infinity s2) = Infinity (s1 \<noteq> s2)"
| "double_mul x y = NaN"

fun double_div :: "double \<Rightarrow> double \<Rightarrow> error + double" where
  "double_div x (Finite s2 m2 q2) =
     (if m2 = 0 then Inl ZeroDivisionError
      else case x of
             Finite s1 m1 q1 \<Rightarrow>
               Inr (if q2 \<le> q1 then round_ratio (s1 \<noteq> s2) (m1 * 2 ^ nat (q1 - q2)) m2
                    else round_ratio (s1 \<noteq> s2) m1 (m2 * 2 ^ nat (q2 - q1)))
           | Infinity s1 \<Rightarrow> Inr (Infinity (s1 \<noteq> s2))
           | NaN \<Rightarrow> Inr NaN)"
| "double_div (Finite s1 m1 q1) (Infinity s2) = Inr (Finite (s1 \<noteq> s2) 0 (- 1074))"
| "double_div x y = Inr NaN"

fun double_add :: "double \<Rightarrow> double \<Rightarrow> double" where
  "double_add (Finite s1 m1 q1) (Finite s2 m2 q2) =
     (let q = min q1 q2;
          n = (if s1 then - m1 else m1) * 2 ^ nat (q1 - q) +
              (if s2 then - m2 else m2) * 2 ^ nat (q2 - q)
      in round_dyadic (if n = 0 then s1 \<and> s2 else n < 0) \<bar>n\<bar> q)"
| "double_add (Finite s1 m1 q1) (Infinity s2) = Infinity s2"
| "double_add (Infinity s1) (Finite s2 m2 q2) = Infinity s1"
| "double_add (Infinity s1) (Infinity s2) = (if s1 = s2 then Infinity s1 else NaN)"
| "double_add x y = NaN"

text \<open>\<^verbatim>\<open>int(x)\<close> of a float truncates toward zero.\<close>

fun double_to_int :: "double \<Rightarrow> error + int" where
  "double_to_int (Finite s m q) =
     Inr ((if s then - 1 else 1) * (if 0 \<le> q then m * 2 ^ nat q else m div 2 ^ nat (- q)))"
| "double_to_int (Infinity s) = Inl OverflowError"
| "double_to_int NaN = Inl ValueError"

text \<open>
  The float that a decimal literal \<open>n \<cdot> 10\<^sup>k\<close> denotes; \<^verbatim>\<open>1623758400.0\<close> is
  \<open>float_literal 16237584000 (- 1)\<close>.
\<close>

definition float_literal :: "int \<Rightarrow> int \<Rightarrow> double" where
  "float_literal n k =
     (if 0 \<le> k then round_ratio (n < 0) (\<bar>n\<bar> * 10 ^ nat k) 1
      else round_ratio (n < 0) \<bar>n\<bar> (10 ^ nat (- k)))"

text \<open>The float \<^verbatim>\<open>1e6\<close>, which is \<open>8589934592000000 \<cdot> 2\<^sup>-\<^sup>3\<^sup>3\<close>.\<close>

definition double_1e6 :: double where
  "double_1e6 = Finite False 8589934592000000 (- 33)"

text \<open>A number that is passed where the annotation says \<^verbatim>\<open>float\<close>: an integer or a float.\<close>

datatype number = IntNum int | FloatNum double

fun to_double :: "number \<Rightarrow> error + double" where
  "to_double (IntNum n) = double_of_int n"
| "to_double (FloatNum x) = Inr x"

text \<open>\<^verbatim>\<open>a / b\<close>.\<close>

fun py_truediv :: "number \<Rightarrow> number \<Rightarrow> error + double" where
  "py_truediv (IntNum a) (IntNum b) = int_true_div a b"
| "py_truediv a b =
     (case to_double a of
        Inl e \<Rightarrow> Inl e
      | Inr x \<Rightarrow> (case to_double b of Inl e \<Rightarrow> Inl e | Inr y \<Rightarrow> double_div x y))"

section \<open>\<^verbatim>\<open>datetime\<close>\<close>

text \<open>
  A \<^verbatim>\<open>datetime\<close> has calendar fields and an optional time zone. The time zones that
  occur are those of \<^verbatim>\<open>datetime.timezone\<close>, a fixed offset from UTC in microseconds;
  \<^verbatim>\<open>timezone.utc\<close> is the offset 0.
\<close>

record datetime =
  dt_year :: int
  dt_month :: int
  dt_day :: int
  dt_hour :: int
  dt_minute :: int
  dt_second :: int
  dt_microsecond :: int
  dt_tzinfo :: "int option"

definition utc :: "int option" where
  "utc = Some 0"

definition is_leap :: "int \<Rightarrow> bool" where
  "is_leap y = (y mod 4 = 0 \<and> (y mod 100 \<noteq> 0 \<or> y mod 400 = 0))"

definition days_before_year :: "int \<Rightarrow> int" where
  "days_before_year y = (y - 1) * 365 + (y - 1) div 4 - (y - 1) div 100 + (y - 1) div 400"

definition DAYS_IN_MONTH :: "int list" where
  "DAYS_IN_MONTH = [- 1, 31, 28, 31, 30, 31, 30, 31, 31, 30, 31, 30, 31]"

definition DAYS_BEFORE_MONTH :: "int list" where
  "DAYS_BEFORE_MONTH = [- 1, 0, 31, 59, 90, 120, 151, 181, 212, 243, 273, 304, 334]"

definition days_in_month :: "int \<Rightarrow> int \<Rightarrow> int" where
  "days_in_month y m = (if m = 2 \<and> is_leap y then 29 else DAYS_IN_MONTH ! nat m)"

definition days_before_month :: "int \<Rightarrow> int \<Rightarrow> int" where
  "days_before_month y m = DAYS_BEFORE_MONTH ! nat m + (if 2 < m \<and> is_leap y then 1 else 0)"

definition ymd2ord :: "int \<Rightarrow> int \<Rightarrow> int \<Rightarrow> int" where
  "ymd2ord y m d = days_before_year y + days_before_month y m + d"

definition ord2ymd :: "int \<Rightarrow> int \<times> int \<times> int" where
  "ord2ymd ordinal =
     (let n = ordinal - 1;
          n400 = n div 146097; n = n mod 146097;
          n100 = n div 36524; n = n mod 36524;
          n4 = n div 1461; n = n mod 1461;
          n1 = n div 365; n = n mod 365;
          y = n400 * 400 + 1 + n100 * 100 + n4 * 4 + n1
      in if n1 = 4 \<or> n100 = 4 then (y - 1, 12, 31)
         else
           let leapyear = (n1 = 3 \<and> (n4 \<noteq> 24 \<or> n100 = 3));
               m = (n + 50) div 32;
               preceding = DAYS_BEFORE_MONTH ! nat m + (if 2 < m \<and> leapyear then 1 else 0)
           in if n < preceding
              then (y, m - 1,
                    n - (preceding - (DAYS_IN_MONTH ! nat (m - 1) + (if m - 1 = 2 \<and> leapyear then 1 else 0))) + 1)
              else (y, m, n - preceding + 1))"

text \<open>The checks of the constructor \<^verbatim>\<open>datetime(...)\<close>.\<close>

definition valid_date :: "int \<Rightarrow> int \<Rightarrow> int \<Rightarrow> bool" where
  "valid_date y m d = (1 \<le> y \<and> y \<le> 9999 \<and> 1 \<le> m \<and> m \<le> 12 \<and> 1 \<le> d \<and> d \<le> days_in_month y m)"

definition valid_time :: "int \<Rightarrow> int \<Rightarrow> int \<Rightarrow> int \<Rightarrow> bool" where
  "valid_time hh mm ss us =
     (0 \<le> hh \<and> hh \<le> 23 \<and> 0 \<le> mm \<and> mm \<le> 59 \<and> 0 \<le> ss \<and> ss \<le> 59 \<and> 0 \<le> us \<and> us \<le> 999999)"

definition valid_datetime :: "datetime \<Rightarrow> bool" where
  "valid_datetime dt =
     (valid_date (dt_year dt) (dt_month dt) (dt_day dt) \<and>
      valid_time (dt_hour dt) (dt_minute dt) (dt_second dt) (dt_microsecond dt) \<and>
      (case dt_tzinfo dt of None \<Rightarrow> True | Some off \<Rightarrow> - 86400000000 < off \<and> off < 86400000000))"

definition new_datetime ::
  "int \<Rightarrow> int \<Rightarrow> int \<Rightarrow> int \<Rightarrow> int \<Rightarrow> int \<Rightarrow> int \<Rightarrow> int option \<Rightarrow> error + datetime" where
  "new_datetime y m d hh mm ss us tz =
     (if valid_date y m d \<and> valid_time hh mm ss us
      then Inr \<lparr>dt_year = y, dt_month = m, dt_day = d, dt_hour = hh, dt_minute = mm,
                dt_second = ss, dt_microsecond = us, dt_tzinfo = tz\<rparr>
      else Inl ValueError)"

text \<open>
  The microseconds from \<^verbatim>\<open>1970-01-01 00:00:00\<close> to the calendar fields of \<open>dt\<close>, the time
  zone left aside; 719163 is the ordinal of the first day of 1970.
\<close>

definition field_microseconds :: "datetime \<Rightarrow> int" where
  "field_microseconds dt =
     (((ymd2ord (dt_year dt) (dt_month dt) (dt_day dt) - 719163) * 86400 +
       (dt_hour dt * 3600 + dt_minute dt * 60 + dt_second dt)) * 1000000 + dt_microsecond dt)"

text \<open>
  \<^verbatim>\<open>dt.timestamp()\<close>. With a time zone it is \<^verbatim>\<open>(dt - _EPOCH).total_seconds()\<close>, the
  quotient of two integers. Without one the fields are read in the local zone of the
  host: \<open>mktime\<close> stands for the seconds that the host assigns to them, or the error that
  it raises when it has none (for fields out of its range), and the result is
  \<^verbatim>\<open>mktime + dt.microsecond / 1e6\<close>.
\<close>

definition timestamp :: "(datetime \<Rightarrow> error + int) \<Rightarrow> datetime \<Rightarrow> error + double" where
  "timestamp mktime dt =
     (case dt_tzinfo dt of
        Some off \<Rightarrow> int_true_div (field_microseconds dt - off) 1000000
      | None \<Rightarrow>
          (case mktime dt of
             Inl e \<Rightarrow> Inl e
           | Inr seconds \<Rightarrow>
               (case py_truediv (IntNum (dt_microsecond dt)) (FloatNum double_1e6) of
                  Inl e \<Rightarrow> Inl e
                | Inr f \<Rightarrow>
                    (case double_of_int seconds of
                       Inl e \<Rightarrow> Inl e
                     | Inr s \<Rightarrow> Inr (double_add s f)))))"

text \<open>
  \<^verbatim>\<open>
  def to_millis(dt):
      return int(dt.timestamp() * 1000)
  \<close>
\<close>

definition to_millis :: "(datetime \<Rightarrow> error + int) \<Rightarrow> datetime \<Rightarrow> error + int" where
  "to_millis mktime dt =
     (case timestamp mktime dt of
        Inl e \<Rightarrow> Inl e
      | Inr x \<Rightarrow>
          (case double_of_int 1000 of
             Inl e \<Rightarrow> Inl e
           | Inr k \<Rightarrow> double_to_int (double_mul x k)))"

text \<open>
  The seconds and microseconds of a timestamp, as \<^verbatim>\<open>datetime.fromtimestamp\<close> takes
  them: the integral part, and the fraction times \<^verbatim>\<open>1e6\<close> rounded to the nearest
  integer (a tie to the even one), with the carry into the seconds.
\<close>

fun round_half_even :: "double \<Rightarrow> int" where
  "round_half_even (Finite s m q) =
     (if s then - 1 else 1) *
     (if 0 \<le> q then m * 2 ^ nat q
      else let d = 2 ^ nat (- q); a = m div d; r = m mod d
           in if d < 2 * r \<or> (2 * r = d \<and> odd a) then a + 1 else a)"
| "round_half_even x = 0"

definition in_time_t :: "int \<Rightarrow> bool" where
  "in_time_t n = (- (2 ^ 63) \<le> n \<and> n < 2 ^ 63)"

fun timestamp_parts :: "number \<Rightarrow> error + int \<times> int" where
  "timestamp_parts (IntNum n) = (if in_time_t n then Inr (n, 0) else Inl OverflowError)"
| "timestamp_parts (FloatNum NaN) = Inl ValueError"
| "timestamp_parts (FloatNum (Infinity s)) = Inl OverflowError"
| "timestamp_parts (FloatNum (Finite s m q)) =
     (let sgn = (if s then - 1 else 1);
          intpart = sgn * (if 0 \<le> q then m * 2 ^ nat q else m div 2 ^ nat (- q));
          floatpart = (if 0 \<le> q then Finite s 0 (- 1074) else round_dyadic s (m mod 2 ^ nat (- q)) q);
          us = round_half_even (double_mul floatpart double_1e6);
          sec = (if 1000000 \<le> us then intpart + 1 else if us < 0 then intpart - 1 else intpart);
          us = (if 1000000 \<le> us then us - 1000000 else if us < 0 then us + 1000000 else us)
      in if in_time_t sec then Inr (sec, us) else Inl OverflowError)"

text \<open>
  \<^verbatim>\<open>datetime.fromtimestamp(ts, timezone.utc)\<close>: the calendar fields of \<^verbatim>\<open>gmtime\<close> for the
  seconds. \<^verbatim>\<open>gmtime\<close> keeps the year minus 1900 in a C \<^verbatim>\<open>int\<close> and fails beyond it.
\<close>

definition fromtimestamp_utc :: "number \<Rightarrow> error + datetime" where
  "fromtimestamp_utc ts =
     (case timestamp_parts ts of
        Inl e \<Rightarrow> Inl e
      | Inr (sec, us) \<Rightarrow>
          (let days = sec div 86400; rem = sec mod 86400;
               (y, m, d) = ord2ymd (719163 + days)
           in if y - 1900 < - (2 ^ 31) \<or> 2 ^ 31 \<le> y - 1900 then Inl OSError
              else new_datetime y m d (rem div 3600) (rem mod 3600 div 60) (min 59 (rem mod 60)) us utc))"

text \<open>
  \<^verbatim>\<open>
  def datetime_from_seconds(ts):
      return datetime.fromtimestamp(ts, timezone.utc)

  def datetime_from_millis(millis):
      return datetime_from_seconds(millis / 1000)
  \<close>
\<close>

definition datetime_from_seconds :: "number \<Rightarrow> error + datetime" where
  "datetime_from_seconds ts = fromtimestamp_utc ts"

definition datetime_from_millis :: "number \<Rightarrow> error + datetime" where
  "datetime_from_millis millis =
     (case py_truediv millis (IntNum 1000) of
        Inl e \<Rightarrow> Inl e
      | Inr ts \<Rightarrow> datetime_from_seconds (FloatNum ts))"

section \<open>\<^verbatim>\<open>datetime.strptime\<close>\<close>

text \<open>
  A string is a sequence of characters with codes below 256; among these the decimal
  digits are \<^verbatim>\<open>0\<close> to \<^verbatim>\<open>9\<close>.

  \<^verbatim>\<open>strptime\<close> turns the format into a regular expression, each directive into a group
  of alternatives, and matches it at the start of the string, ignoring case. A matcher
  returns the ways in which it can match a prefix of its input, the preferred one first,
  each with the text matched and the input that remains; what follows a matcher is tried
  on each in turn.
\<close>

definition in_range :: "char \<Rightarrow> char \<Rightarrow> char \<Rightarrow> bool" where
  "in_range lo hi c = ((of_char lo :: nat) \<le> of_char c \<and> (of_char c :: nat) \<le> of_char hi)"

definition is_digit :: "char \<Rightarrow> bool" where
  "is_digit c = in_range CHR ''0'' CHR ''9'' c"

definition is_char :: "char \<Rightarrow> char \<Rightarrow> bool" where
  "is_char a c = (c = a)"

text \<open>A letter of the format matches in either case.\<close>

definition is_letter :: "char \<Rightarrow> char \<Rightarrow> char \<Rightarrow> bool" where
  "is_letter upper lower c = (c = upper \<or> c = lower)"

fun re_classes :: "(char \<Rightarrow> bool) list \<Rightarrow> string \<Rightarrow> (string \<times> string) list" where
  "re_classes [] s = [([], s)]"
| "re_classes (p # ps) [] = []"
| "re_classes (p # ps) (c # cs) =
     (if p c then map (\<lambda>(w, r). (c # w, r)) (re_classes ps cs) else [])"

text \<open>
  The groups of \<^verbatim>\<open>_strptime.TimeRE\<close>:
  \<^verbatim>\<open>
  'Y': \d\d\d\d
  'm': 1[0-2]|0[1-9]|[1-9]
  'd': 3[0-1]|[1-2]\d|0[1-9]|[1-9]| [1-9]
  'H': 2[0-3]|[0-1]\d|\d
  'M': [0-5]\d|\d
  'S': 6[0-1]|[0-5]\d|\d
  'f': [0-9]{1,6}
  \<close>
\<close>

definition directive_Y :: "(char \<Rightarrow> bool) list list" where
  "directive_Y = [ [is_digit, is_digit, is_digit, is_digit] ]"

definition directive_m :: "(char \<Rightarrow> bool) list list" where
  "directive_m =
     [ [is_char CHR ''1'', in_range CHR ''0'' CHR ''2''],
      [is_char CHR ''0'', in_range CHR ''1'' CHR ''9''],
      [in_range CHR ''1'' CHR ''9''] ]"

definition directive_d :: "(char \<Rightarrow> bool) list list" where
  "directive_d =
     [ [is_char CHR ''3'', in_range CHR ''0'' CHR ''1''],
      [in_range CHR ''1'' CHR ''2'', is_digit],
      [is_char CHR ''0'', in_range CHR ''1'' CHR ''9''],
      [in_range CHR ''1'' CHR ''9''],
      [is_char CHR '' '', in_range CHR ''1'' CHR ''9''] ]"

definition directive_H :: "(char \<Rightarrow> bool) list list" where
  "directive_H =
     [ [is_char CHR ''2'', in_range CHR ''0'' CHR ''3''],
      [in_range CHR ''0'' CHR ''1'', is_digit],
      [is_digit] ]"

definition directive_M :: "(char \<Rightarrow> bool) list list" where
  "directive_M = [ [in_range CHR ''0'' CHR ''5'', is_digit], [is_digit] ]"

definition directive_S :: "(char \<Rightarrow> bool) list list" where
  "directive_S =
     [ [is_char CHR ''6'', in_range CHR ''0'' CHR ''1''],
      [in_range CHR ''0'' CHR ''5'', is_digit],
      [is_digit] ]"

text \<open>The repetition \<^verbatim>\<open>{1,6}\<close> takes as many digits as it can get.\<close>

definition directive_f :: "(char \<Rightarrow> bool) list list" where
  "directive_f =
     [ [is_digit, is_digit, is_digit, is_digit, is_digit, is_digit],
      [is_digit, is_digit, is_digit, is_digit, is_digit],
      [is_digit, is_digit, is_digit, is_digit],
      [is_digit, is_digit, is_digit],
      [is_digit, is_digit],
      [is_digit] ]"

text \<open>A group tries its alternatives from left to right.\<close>

definition re_group :: "(char \<Rightarrow> bool) list list \<Rightarrow> string \<Rightarrow> (string \<times> string) list" where
  "re_group alts s = concat (map (\<lambda>ps. re_classes ps s) alts)"

text \<open>The regular expression of \<^verbatim>\<open>%Y-%m-%dT%H:%M:%S.%fZ\<close>, with the texts of its groups.\<close>

definition format_regex ::
  "string \<Rightarrow> ((string \<times> string \<times> string \<times> string \<times> string \<times> string \<times> string) \<times> string) list" where
  "format_regex s =
     List.bind (re_group directive_Y s) (\<lambda>(Y, r).
     List.bind (re_classes [is_char CHR ''-''] r) (\<lambda>(x, r).
     List.bind (re_group directive_m r) (\<lambda>(m, r).
     List.bind (re_classes [is_char CHR ''-''] r) (\<lambda>(x, r).
     List.bind (re_group directive_d r) (\<lambda>(d, r).
     List.bind (re_classes [is_letter CHR ''T'' CHR ''t''] r) (\<lambda>(x, r).
     List.bind (re_group directive_H r) (\<lambda>(H, r).
     List.bind (re_classes [is_char CHR '':''] r) (\<lambda>(x, r).
     List.bind (re_group directive_M r) (\<lambda>(M, r).
     List.bind (re_classes [is_char CHR '':''] r) (\<lambda>(x, r).
     List.bind (re_group directive_S r) (\<lambda>(S, r).
     List.bind (re_classes [is_char CHR ''.''] r) (\<lambda>(x, r).
     List.bind (re_group directive_f r) (\<lambda>(f, r).
     List.bind (re_classes [is_letter CHR ''Z'' CHR ''z''] r) (\<lambda>(x, r).
       [((Y, m, d, H, M, S, f), r)]))))))))))))))"

text \<open>\<^verbatim>\<open>int(w)\<close> of the text of a group: blanks around the digits are skipped.\<close>

definition int_of_text :: "string \<Rightarrow> int" where
  "int_of_text w = foldl (\<lambda>a c. 10 * a + (int (of_char c) - 48)) 0 (filter is_digit w)"

text \<open>
  \<^verbatim>\<open>datetime.strptime(s, '%Y-%m-%dT%H:%M:%S.%fZ')\<close>: no match and input left over behind
  the match are a \<^verbatim>\<open>ValueError\<close>, and so are fields that are not a date and a time. The
  fraction is padded with zeros to six digits. The result has no time zone.
\<close>

definition strptime :: "string \<Rightarrow> error + datetime" where
  "strptime s =
     (case format_regex s of
        [] \<Rightarrow> Inl ValueError
      | ((Y, m, d, H, M, S, f), r) # other \<Rightarrow>
          if r \<noteq> [] then Inl ValueError
          else new_datetime (int_of_text Y) (int_of_text m) (int_of_text d)
                 (int_of_text H) (int_of_text M) (int_of_text S)
                 (int_of_text (f @ replicate (6 - length f) CHR ''0'')) None)"

text \<open>
  \<^verbatim>\<open>
  def datetime_from_str(dt_str):
      dt = datetime.strptime(dt_str, '%Y-%m-%dT%H:%M:%S.%fZ')
      return dt.replace(tzinfo=timezone.utc)
  \<close>
\<close>

definition datetime_from_str :: "string \<Rightarrow> error + datetime" where
  "datetime_from_str dt_str =
     (case strptime dt_str of
        Inl e \<Rightarrow> Inl e
      | Inr dt \<Rightarrow> Inr (dt\<lparr>dt_tzinfo := utc\<rparr>))"

section \<open>Notions used in the statements\<close>

text \<open>A cursor that can be addressed by key is a dictionary.\<close>

fun is_mapping :: "pyval \<Rightarrow> bool" where
  "is_mapping (PDict kvs) = True"
| "is_mapping v = False"

text \<open>
  What the specification says about one field of the mapping: the field is bound to the
  value found at its path; when the path cannot be followed it is bound to the default if
  \<open>fill\<close> is set and is left out otherwise.
\<close>

definition field_binding :: "string \<Rightarrow> pyval \<Rightarrow> pyval \<Rightarrow> bool \<Rightarrow> string \<times> string \<Rightarrow> (string \<times> pyval) option" where
  "field_binding sep data dflt fill item =
     (case get sep data (snd item) of
        Inr v \<Rightarrow> Some (fst item, v)
      | Inl e \<Rightarrow> if fill then Some (fst item, dflt) else None)"

text \<open>The texts that a sequence of character classes and that a group match.\<close>

definition class_text :: "(char \<Rightarrow> bool) list \<Rightarrow> string \<Rightarrow> bool" where
  "class_text ps w = list_all2 (\<lambda>p c. p c) ps w"

definition group_text :: "(char \<Rightarrow> bool) list list \<Rightarrow> string \<Rightarrow> bool" where
  "group_text alts w = (\<exists>ps\<in>set alts. class_text ps w)"

text \<open>
  The pattern in the words of the specification: a year of four digits, month, day,
  hour, minute and second of two digits, a fraction of one to six digits, and the literal
  characters between them and at the end.
\<close>

definition matches_format :: "string \<Rightarrow> bool" where
  "matches_format s =
     (\<exists>n\<in>set [1, 2, 3, 4, 5, 6].
        class_text
          ([is_digit, is_digit, is_digit, is_digit, is_char CHR ''-'',
            is_digit, is_digit, is_char CHR ''-'',
            is_digit, is_digit, is_char CHR ''T'',
            is_digit, is_digit, is_char CHR '':'',
            is_digit, is_digit, is_char CHR '':'',
            is_digit, is_digit, is_char CHR ''.''] @ replicate n is_digit @ [is_char CHR ''Z'']) s)"

text \<open>
  The strings that \<^verbatim>\<open>strptime\<close> reads with the format, with the texts of the fields:
  the field texts are those of the groups, \<^verbatim>\<open>T\<close> and \<^verbatim>\<open>Z\<close> may be in lower case.
\<close>

fun reads_as ::
  "string \<Rightarrow> string \<times> string \<times> string \<times> string \<times> string \<times> string \<times> string \<Rightarrow> bool" where
  "reads_as s (Y, m, d, H, M, S, f) =
     ((\<exists>t z. s = Y @ ''-'' @ m @ ''-'' @ d @ [t] @ H @ '':'' @ M @ '':'' @ S @ ''.'' @ f @ [z] \<and>
         is_letter CHR ''T'' CHR ''t'' t \<and> is_letter CHR ''Z'' CHR ''z'' z) \<and>
      group_text directive_Y Y \<and> group_text directive_m m \<and> group_text directive_d d \<and>
      group_text directive_H H \<and> group_text directive_M M \<and> group_text directive_S S \<and>
      group_text directive_f f)"

declare reads_as.simps [simp del]

text \<open>A text of digits, at least one.\<close>

definition digits :: "string \<Rightarrow> bool" where
  "digits w = (w \<noteq> [] \<and> (\<forall>c\<in>set w. is_digit c))"

text \<open>
  The value of a field that the converter has gone through \<open>n\<close> times: each time the
  field takes the value of \<open>func\<close>, and keeps its own where \<open>func\<close> raises.
\<close>

fun apply_times :: "(pyval \<Rightarrow> error + pyval) \<Rightarrow> nat \<Rightarrow> pyval \<Rightarrow> pyval" where
  "apply_times func 0 v = v"
| "apply_times func (Suc n) v = apply_times func n (case func v of Inr w \<Rightarrow> w | Inl e \<Rightarrow> v)"

text \<open>What the caller of an adapter observes: the error, or the returned record.\<close>

fun call_outcome :: "(error + addr) \<times> closure \<times> heap \<Rightarrow> error + pyval" where
  "call_outcome (Inl e, c, h) = Inl e"
| "call_outcome (Inr r, c, h) = Inr (cells h r)"

section \<open>Dictionaries and the traversal\<close>

lemma split_scan_nonempty: "split_scan sep acc s \<noteq> []"
proof (induction sep acc s rule: split_scan.induct)
  case (1 sep acc s)
  then show ?case by (subst split_scan.simps) (auto split: list.splits)
qed




lemma dict_set_fresh: "k \<notin> fst ` set d \<Longrightarrow> dict_set d k v = d @ [(k, v)]"
  by (induction d) auto

lemma field_binding_Inr:
  "get sep data loc = Inr v \<Longrightarrow> field_binding sep data dflt fill (key, loc) = Some (key, v)"
  by (simp add: field_binding_def)

lemma field_binding_Inl:
  "get sep data loc = Inl e \<Longrightarrow>
   field_binding sep data dflt fill (key, loc) = (if fill then Some (key, dflt) else None)"
  by (simp add: field_binding_def)

lemma field_binding_fst: "field_binding sep data dflt fill item = Some b \<Longrightarrow> fst b = fst item"
  by (auto simp: field_binding_def split: sum.splits if_splits)

lemma map_filter_keys_subset:
  "fst ` set (List.map_filter (field_binding sep data dflt fill) items) \<subseteq> fst ` set items"
  by (induction items) (auto simp: List.map_filter_simps split: option.splits dest: field_binding_fst)

lemma adapter_loop_result:
  "adapter_loop sep data dflt fill items r = Inr r' \<Longrightarrow>
   distinct (map fst items) \<Longrightarrow> fst ` set r \<inter> fst ` set items = {} \<Longrightarrow>
   r' = r @ List.map_filter (field_binding sep data dflt fill) items"
proof (induction items arbitrary: r)
  case Nil
  then show ?case by (simp add: List.map_filter_simps)
next
  case (Cons item items)
  obtain key loc where item: "item = (key, loc)" by (cases item)
  have fresh: "key \<notin> fst ` set r" using Cons.prems(3) item by auto
  show ?case
  proof (cases "get sep data loc")
    case (Inr v)
    with Cons.prems item have run: "adapter_loop sep data dflt fill items (dict_set r key v) = Inr r'"
      by simp
    have "r' = dict_set r key v @ List.map_filter (field_binding sep data dflt fill) items"
      using Cons.prems item fresh
      by (intro Cons.IH [OF run]) (auto simp: dict_set_fresh)
    then show ?thesis using Inr item fresh
      by (simp add: dict_set_fresh List.map_filter_simps field_binding_Inr field_binding_Inl)
  next
    case (Inl e)
    with Cons.prems item obtain k where e: "e = KeyError k"
      by (cases e) auto
    let ?r1 = "if fill then dict_set r key dflt else r"
    from Cons.prems item Inl e have run: "adapter_loop sep data dflt fill items ?r1 = Inr r'"
      by simp
    have "r' = ?r1 @ List.map_filter (field_binding sep data dflt fill) items"
      using Cons.prems item fresh
      by (intro Cons.IH [OF run]) (auto simp: dict_set_fresh)
    then show ?thesis using Inl item fresh
      by (simp add: dict_set_fresh List.map_filter_simps field_binding_Inr field_binding_Inl)
  qed
qed


lemma adapter_loop_fatal:
  "get sep data loc = Inl e \<Longrightarrow> \<not> is_KeyError e \<Longrightarrow> (key, loc) \<in> set items \<Longrightarrow>
   \<exists>e'. adapter_loop sep data dflt fill items r = Inl e' \<and> \<not> is_KeyError e'"
proof (induction items arbitrary: r)
  case Nil
  then show ?case by simp
next
  case (Cons item items)
  obtain key' loc' where item: "item = (key', loc')" by (cases item)
  show ?case
  proof (cases "get sep data loc'")
    case (Inr v)
    then have "loc' \<noteq> loc" using Cons.prems by auto
    then show ?thesis using Cons item Inr by auto
  next
    case (Inl e1)
    show ?thesis
    proof (cases e1)
      case (KeyError k)
      then have "loc' \<noteq> loc" using Cons.prems Inl by auto
      then show ?thesis using Cons item Inl KeyError by auto
    qed (use Inl item in auto)
  qed
qed

lemma get_loop_append:
  "get_loop data (ks @ ks') = (case get_loop data ks of Inl e \<Rightarrow> Inl e | Inr v \<Rightarrow> get_loop v ks')"
  by (induction ks arbitrary: data) (auto split: sum.splits)

lemma py_getitem_not_mapping: "\<not> is_mapping cur \<Longrightarrow> py_getitem cur k = Inl TypeError"
  by (cases cur) auto

lemma py_getitem_error: "py_getitem cur k = Inl e \<Longrightarrow> e = TypeError \<or> e = KeyError k"
  by (cases cur) (auto split: option.splits)

lemma get_loop_error: "get_loop data ks = Inl e \<Longrightarrow> e = TypeError \<or> (\<exists>k. e = KeyError k)"
  by (induction ks arbitrary: data) (auto split: sum.splits dest: py_getitem_error)

lemma get_error: "sep \<noteq> [] \<Longrightarrow> get sep data loc = Inl e \<Longrightarrow> e = TypeError \<or> is_KeyError e"
  by (auto simp: get_def str_split_def dest: get_loop_error)

lemma adapter_loop_error:
  "sep \<noteq> [] \<Longrightarrow> adapter_loop sep data dflt fill items r = Inl e \<Longrightarrow> e = TypeError"
proof (induction items arbitrary: r)
  case Nil
  then show ?case by simp
next
  case (Cons item items)
  obtain key loc where item: "item = (key, loc)" by (cases item)
  show ?case
  proof (cases "get sep data loc")
    case (Inr v)
    then show ?thesis using Cons item by simp
  next
    case (Inl e1)
    then have "e1 = TypeError \<or> is_KeyError e1" using Cons.prems(1) by (rule get_error [rotated])
    then show ?thesis using Cons item Inl by (cases e1) (auto split: if_splits)
  qed
qed

lemma get_malformed:
  assumes "str_split loc sep = Inr (ks @ k # rest)" and "get_loop data ks = Inr cur"
    and "\<not> is_mapping cur"
  shows "get sep data loc = Inl TypeError"
  using assms by (simp add: get_def get_loop_append py_getitem_not_mapping)

lemma get_loop_KeyError:
  "get_loop data keys = Inl (KeyError x) \<Longrightarrow>
   \<exists>ks rest kvs. keys = ks @ x # rest \<and> get_loop data ks = Inr (PDict kvs) \<and> map_of kvs x = None"
proof (induction keys arbitrary: data)
  case Nil
  then show ?case by simp
next
  case (Cons k keys)
  show ?case
  proof (cases "py_getitem data k")
    case (Inl e)
    with Cons.prems have e: "e = KeyError x" by simp
    with Inl obtain kvs where "data = PDict kvs" "map_of kvs x = None" "k = x"
      by (cases data) (auto split: option.splits)
    then have "k # keys = [] @ x # keys \<and> get_loop data [] = Inr (PDict kvs) \<and> map_of kvs x = None"
      by simp
    then show ?thesis by blast
  next
    case (Inr v)
    with Cons.prems have "get_loop v keys = Inl (KeyError x)" by simp
    from Cons.IH [OF this] obtain ks rest kvs where
      "keys = ks @ x # rest" "get_loop v ks = Inr (PDict kvs)" "map_of kvs x = None" by blast
    then have "k # keys = (k # ks) @ x # rest \<and> get_loop data (k # ks) = Inr (PDict kvs) \<and> map_of kvs x = None"
      using Inr by simp
    then show ?thesis by blast
  qed
qed

lemma adapter_malformed:
  assumes "(key, loc) \<in> set mapper" and "str_split loc sep = Inr (ks @ k # rest)"
    and "get_loop data ks = Inr cur" and "\<not> is_mapping cur"
  shows "build_adapter mapper sep data dflt fill = Inl TypeError"
proof -
  have sep: "sep \<noteq> []" using assms(2) by (auto simp: str_split_def split: if_splits)
  have "get sep data loc = Inl TypeError" using assms(2-4) by (rule get_malformed)
  then obtain e' where "adapter_loop sep data dflt fill mapper [] = Inl e'"
    using adapter_loop_fatal [of sep data loc TypeError key mapper dflt fill "[]"] assms(1) by auto
  then show ?thesis using adapter_loop_error [OF sep] by (simp add: build_adapter_def adapter_def)
qed


lemma keys_map_filter_binding:
  "distinct (map fst items) \<Longrightarrow>
   map fst (List.map_filter (field_binding sep data dflt fill) items) =
   filter (\<lambda>k. k \<in> fst ` set (List.map_filter (field_binding sep data dflt fill) items)) (map fst items)"
proof (induction items)
  case Nil
  then show ?case by (simp add: List.map_filter_simps)
next
  case (Cons item items)
  let ?fb = "field_binding sep data dflt fill"
  let ?R = "List.map_filter ?fb items"
  have sub: "fst ` set ?R \<subseteq> fst ` set items" by (rule map_filter_keys_subset)
  have notin: "fst item \<notin> fst ` set items" using Cons.prems by auto
  have IH: "map fst ?R = filter (\<lambda>k. k \<in> fst ` set ?R) (map fst items)"
    using Cons by simp
  show ?case
  proof (cases "?fb item")
    case None
    have "filter (\<lambda>k. k \<in> fst ` set ?R) (map fst (item # items)) = filter (\<lambda>k. k \<in> fst ` set ?R) (map fst items)"
      using notin sub by auto
    then show ?thesis using None IH by (simp add: List.map_filter_simps)
  next
    case (Some b)
    then have b: "fst b = fst item" by (rule field_binding_fst)
    have "filter (\<lambda>k. k \<in> insert (fst item) (fst ` set ?R)) (map fst items) = filter (\<lambda>k. k \<in> fst ` set ?R) (map fst items)"
    proof (intro filter_cong refl)
      fix k assume "k \<in> set (map fst items)"
      then have "k \<in> fst ` set items" by simp
      then have "k \<noteq> fst item" using notin by blast
      then show "(k \<in> insert (fst item) (fst ` set ?R)) = (k \<in> fst ` set ?R)" by simp
    qed
    then show ?thesis using Some IH b by (simp add: List.map_filter_simps)
  qed
qed

lemma keys_map_filter_fill:
  "map fst (List.map_filter (field_binding sep data dflt True) items) = map fst items"
  by (induction items) (auto simp: List.map_filter_simps field_binding_def split: sum.splits)

lemmas adapter_eval = build_adapter_def adapter_def get_def str_split_def split_scan.simps


section \<open>The adapter\<close>



lemma get_KeyError:
  assumes "get sep data loc = Inl (KeyError x)"
  shows "\<exists>ks rest kvs. str_split loc sep = Inr (ks @ x # rest) \<and>
         get_loop data ks = Inr (PDict kvs) \<and> map_of kvs x = None"
proof (cases "str_split loc sep")
  case (Inl e)
  then show ?thesis using assms by (auto simp: get_def str_split_def split: if_splits)
next
  case (Inr keys)
  then have "get_loop data keys = Inl (KeyError x)" using assms by (simp add: get_def)
  from get_loop_KeyError [OF this] show ?thesis using Inr by simp
qed

text \<open>
  Claim C2. When the traversal of some field of the mapping reaches a cursor that is not a
  dictionary and a further key is to be looked up in it, the adapter as a whole raises
  \<^verbatim>\<open>TypeError\<close>, whatever \<open>fill\<close> and the default are. A \<^verbatim>\<open>KeyError\<close>, the one error that
  is recovered, comes only from a key that is absent from a dictionary. The mapping
  \<^verbatim>\<open>{"a": "x.y"}\<close> applied to \<^verbatim>\<open>{"x": 5}\<close> raises.
\<close>

theorem adapter_malformed_shape_propagates:
  "((key, loc) \<in> set mapper \<and> str_split loc sep = Inr (ks @ k # rest) \<and>
    get_loop data ks = Inr cur \<and> \<not> is_mapping cur \<longrightarrow>
      build_adapter mapper sep data dflt fill = Inl TypeError) \<and>
   (get sep data loc = Inl (KeyError x) \<longrightarrow>
      (\<exists>ks rest kvs. str_split loc sep = Inr (ks @ x # rest) \<and>
         get_loop data ks = Inr (PDict kvs) \<and> map_of kvs x = None)) \<and>
   build_adapter [(''a'', ''x.y'')] ''.'' (PDict [(''x'', PInt 5)]) dflt fill = Inl TypeError"
proof (intro conjI impI)
  assume "(key, loc) \<in> set mapper \<and> str_split loc sep = Inr (ks @ k # rest) \<and>
    get_loop data ks = Inr cur \<and> \<not> is_mapping cur"
  then show "build_adapter mapper sep data dflt fill = Inl TypeError"
    using adapter_malformed by blast
next
  assume "get sep data loc = Inl (KeyError x)"
  then show "\<exists>ks rest kvs. str_split loc sep = Inr (ks @ x # rest) \<and>
         get_loop data ks = Inr (PDict kvs) \<and> map_of kvs x = None"
    by (rule get_KeyError)
qed (simp add: adapter_eval)

theorem adapter_malformed_shape_propagates_witness:
  "build_adapter [(''n'', ''id''), (''a'', ''x.0.y'')] ''.''
     (PDict [(''id'', PInt 1), (''x'', PList [PDict [(''y'', PInt 5)] ])]) PNone True = Inl TypeError \<and>
   (\<exists>ks rest kvs. str_split ''x.y'' ''.'' = Inr (ks @ ''y'' # rest) \<and>
      get_loop (PDict [(''x'', PDict [])]) ks = Inr (PDict kvs) \<and> map_of kvs ''y'' = None)"
proof -
  let ?m = "[(''n'', ''id''), (''a'', ''x.0.y'')]"
  let ?d = "PDict [(''id'', PInt 1), (''x'', PList [PDict [(''y'', PInt 5)] ])]"
  have hyp: "(''a'', ''x.0.y'') \<in> set ?m \<and> str_split ''x.0.y'' ''.'' = Inr ([''x''] @ ''0'' # [''y'']) \<and>
    get_loop ?d [''x''] = Inr (PList [PDict [(''y'', PInt 5)] ]) \<and>
    \<not> is_mapping (PList [PDict [(''y'', PInt 5)] ])"
    by (simp add: str_split_def split_scan.simps)
  have g: "get ''.'' (PDict [(''x'', PDict [])]) ''x.y'' = Inl (KeyError ''y'')"
    by (simp add: get_def str_split_def split_scan.simps)
  note i1 = adapter_malformed_shape_propagates
    [where key="''a''" and loc="''x.0.y''" and mapper="?m" and sep="''.''" and ks="[''x'']"
       and k="''0''" and rest="[''y'']" and data="?d" and cur="PList [PDict [(''y'', PInt 5)] ]"
       and dflt=PNone and fill=True]
  note i2 = adapter_malformed_shape_propagates
    [where sep="''.''" and data="PDict [(''x'', PDict [])]" and loc="''x.y''" and x="''y''"]
  show ?thesis
    using i1 [THEN conjunct1, rule_format, OF hyp]
      i2 [THEN conjunct2, THEN conjunct1, rule_format, OF g]
    by blast
qed

lemma get_reorder:
  assumes "distinct (map fst kvs)" "distinct (map fst kvs')" "set kvs = set kvs'"
  shows "get sep (PDict kvs) loc = get sep (PDict kvs') loc"
proof (cases "sep = []")
  case True
  then show ?thesis by (simp add: get_def str_split_def)
next
  case False
  obtain k ks where ks: "split_scan sep [] loc = k # ks"
    using split_scan_nonempty [of sep "[]" loc] by (cases "split_scan sep [] loc") auto
  have "map_of kvs = map_of kvs'" using assms by (simp add: map_of_inject_set)
  then show ?thesis using False ks by (simp add: get_def str_split_def)
qed

lemma adapter_loop_cong:
  "(\<And>loc. get sep d loc = get sep d' loc) \<Longrightarrow>
   adapter_loop sep d dflt fill items r = adapter_loop sep d' dflt fill items r"
  by (induction items arbitrary: r) (auto split: sum.splits error.splits)

text \<open>
  Claim C3. When the adapter returns a record, the field names of the record, in the
  order of the record, are the field names of the mapping, in the order of the mapping,
  that the record holds; with \<open>fill\<close> they are all the field names of the mapping. The
  order of the keys in the document plays no part: two documents with the same items in
  different orders give the same result.
\<close>

theorem adapter_output_order:
  "(distinct (map fst mapper) \<and> build_adapter mapper sep data dflt fill = Inr result \<longrightarrow>
      map fst result = filter (\<lambda>k. k \<in> fst ` set result) (map fst mapper) \<and>
      (fill \<longrightarrow> map fst result = map fst mapper)) \<and>
   (distinct (map fst kvs) \<and> distinct (map fst kvs') \<and> set kvs = set kvs' \<longrightarrow>
      build_adapter mapper sep (PDict kvs) dflt fill = build_adapter mapper sep (PDict kvs') dflt fill)"
proof (intro conjI impI)
  assume a: "distinct (map fst mapper) \<and> build_adapter mapper sep data dflt fill = Inr result"
  then have d: "distinct (map fst mapper)"
    and run: "adapter_loop sep data dflt fill mapper [] = Inr result"
    by (simp_all add: build_adapter_def adapter_def)
  have res: "result = List.map_filter (field_binding sep data dflt fill) mapper"
    using adapter_loop_result [OF run d] by simp
  show "map fst result = filter (\<lambda>k. k \<in> fst ` set result) (map fst mapper)"
    unfolding res using d by (rule keys_map_filter_binding)
  show "map fst result = map fst mapper" if fill
    unfolding res using that by (simp add: keys_map_filter_fill)
next
  assume "distinct (map fst kvs) \<and> distinct (map fst kvs') \<and> set kvs = set kvs'"
  then have "get sep (PDict kvs) loc = get sep (PDict kvs') loc" for loc
    using get_reorder by blast
  then show "build_adapter mapper sep (PDict kvs) dflt fill = build_adapter mapper sep (PDict kvs') dflt fill"
    unfolding build_adapter_def adapter_def by (rule adapter_loop_cong)
qed

theorem adapter_output_order_witness:
  "map fst [(''b'', PInt 2), (''a'', PInt 1)] =
     filter (\<lambda>k. k \<in> fst ` set [(''b'', PInt 2), (''a'', PInt 1)])
       (map fst [(''b'', ''y''), (''c'', ''z''), (''a'', ''x'')]) \<and>
   build_adapter [(''b'', ''y''), (''c'', ''z''), (''a'', ''x'')] ''.''
       (PDict [(''x'', PInt 1), (''y'', PInt 2)]) PNone False =
   build_adapter [(''b'', ''y''), (''c'', ''z''), (''a'', ''x'')] ''.''
       (PDict [(''y'', PInt 2), (''x'', PInt 1)]) PNone False"
proof -
  let ?m = "[(''b'', ''y''), (''c'', ''z''), (''a'', ''x'')]"
  have run: "distinct (map fst ?m) \<and> build_adapter ?m ''.''
      (PDict [(''x'', PInt 1), (''y'', PInt 2)]) PNone False = Inr [(''b'', PInt 2), (''a'', PInt 1)]"
    by (simp add: adapter_eval)
  have perm: "distinct (map fst [(''x'', PInt 1), (''y'', PInt 2)]) \<and>
      distinct (map fst [(''y'', PInt 2), (''x'', PInt 1)]) \<and>
      set [(''x'', PInt 1), (''y'', PInt 2)] = set [(''y'', PInt 2), (''x'', PInt 1)]"
    by auto
  from adapter_output_order [THEN conjunct1, rule_format, OF run]
    adapter_output_order [THEN conjunct2, rule_format, OF perm]
  show ?thesis by blast
qed

lemma store_item_cases:
  "store_item h r key v = Inl TypeError \<or>
   (\<exists>d. store_item h r key v = Inr (heap_write h r d))"
  by (cases "cells h r") (auto simp: store_item_def)

lemma store_item_not_KeyError: "store_item h r key v \<noteq> Inl (KeyError k)"
  using store_item_cases [of h r key v] by auto

lemma store_item_frame:
  "store_item h r key v = Inr h' \<Longrightarrow>
   (\<forall>a. a \<noteq> r \<longrightarrow> cells h' a = cells h a) \<and> next_free h' = next_free h"
  using store_item_cases [of h r key v] by (auto simp: heap_write_def)

lemma adapter_body_frame:
  "adapter_body c data key loc r h = Inr h' \<Longrightarrow>
   (\<forall>a. a \<noteq> r \<longrightarrow> cells h' a = cells h a) \<and> next_free h' = next_free h"
  by (auto simp: adapter_body_def split: sum.splits dest: store_item_frame)

lemma adapter_items_frame:
  "adapter_items c data dflt fill items r h = (res, c', h') \<Longrightarrow>
   c' = c \<and> (\<forall>a. a \<noteq> r \<longrightarrow> cells h' a = cells h a) \<and> next_free h' = next_free h"
proof (induction items arbitrary: h)
  case Nil
  then show ?case by simp
next
  case (Cons item items)
  obtain key loc where item: "item = (key, loc)" by (cases item)
  show ?case
  proof (cases "adapter_body c data key loc r h")
    case (Inr h1)
    then have "adapter_items c data dflt fill items r h1 = (res, c', h')"
      using Cons.prems item by simp
    from Cons.IH [OF this] adapter_body_frame [OF Inr] show ?thesis by simp
  next
    case (Inl e)
    show ?thesis
    proof (cases "is_KeyError e")
      case False
      then show ?thesis using Cons.prems item Inl by (cases e) auto
    next
      case True
      then obtain k where e: "e = KeyError k" by (cases e) auto
      show ?thesis
      proof (cases fill)
        case False
        then have "adapter_items c data dflt fill items r h = (res, c', h')"
          using Cons.prems item Inl e by simp
        from Cons.IH [OF this] show ?thesis .
      next
        case True
        show ?thesis
        proof (cases "store_item h r key dflt")
          case (Inl e')
          then show ?thesis using Cons.prems item \<open>adapter_body c data key loc r h = Inl e\<close> e True
            by simp
        next
          case (Inr h1)
          then have "adapter_items c data dflt fill items r h1 = (res, c', h')"
            using Cons.prems item \<open>adapter_body c data key loc r h = Inl e\<close> e True by simp
          from Cons.IH [OF this] store_item_frame [OF Inr] show ?thesis by simp
        qed
      qed
    qed
  qed
qed

lemma adapter_call_frame:
  assumes "adapter_call c data dflt fill h = (res, c', h')"
  shows "c' = c" and "\<forall>a. a \<noteq> next_free h \<longrightarrow> cells h' a = cells h a"
    and "next_free h' = Suc (next_free h)"
proof -
  let ?h1 = "\<lparr>cells = (cells h)(next_free h := PDict []), next_free = Suc (next_free h)\<rparr>"
  have "c' = c \<and> (\<forall>a. a \<noteq> next_free h \<longrightarrow> cells h' a = cells h a) \<and>
        next_free h' = Suc (next_free h)"
  proof (cases "py_items (cells ?h1 (closure_mapper c))")
    case (Inl e)
    then show ?thesis using assms by (auto simp: adapter_call_def heap_alloc_def)
  next
    case (Inr items)
    then have "adapter_items c data dflt fill items (next_free h) ?h1 = (res, c', h')"
      using assms by (simp add: adapter_call_def heap_alloc_def)
    from adapter_items_frame [OF this] show ?thesis by simp
  qed
  then show "c' = c" and "\<forall>a. a \<noteq> next_free h \<longrightarrow> cells h' a = cells h a"
    and "next_free h' = Suc (next_free h)" by blast+
qed

text \<open>Two runs of the loop on stores that agree on the document and on the result so far.\<close>

lemma store_item_agree:
  "cells h1 r1 = cells h2 r2 \<Longrightarrow>
   (case store_item h1 r1 key v of
      Inl e \<Rightarrow> store_item h2 r2 key v = Inl e
    | Inr h1' \<Rightarrow> (\<exists>h2'. store_item h2 r2 key v = Inr h2' \<and> cells h1' r1 = cells h2' r2 \<and>
          (\<forall>a. a \<noteq> r1 \<longrightarrow> cells h1' a = cells h1 a) \<and>
          (\<forall>a. a \<noteq> r2 \<longrightarrow> cells h2' a = cells h2 a)))"
  by (cases "cells h2 r2") (auto simp: store_item_def heap_write_def)

lemma adapter_items_agree:
  "cells h1 data = cells h2 data \<Longrightarrow> cells h1 r1 = cells h2 r2 \<Longrightarrow> r1 \<noteq> data \<Longrightarrow> r2 \<noteq> data \<Longrightarrow>
   call_outcome (adapter_items c data dflt fill items r1 h1) =
   call_outcome (adapter_items c data dflt fill items r2 h2)"
proof (induction items arbitrary: h1 h2)
  case Nil
  then show ?case by simp
next
  case (Cons item items)
  obtain key loc where item: "item = (key, loc)" by (cases item)
  let ?g = "get_at (closure_sep c) (cells h1 data) loc"
  have g2: "get_at (closure_sep c) (cells h2 data) loc = ?g" using Cons.prems(1) by simp
  show ?case
  proof (cases ?g)
    case (Inr v)
    note st = store_item_agree [OF Cons.prems(2), of key v]
    show ?thesis
    proof (cases "store_item h1 r1 key v")
      case (Inl e)
      then have e2: "store_item h2 r2 key v = Inl e" using st by simp
      have "\<not> is_KeyError e" using Inl store_item_not_KeyError by (cases e) auto
      then show ?thesis using item Inr g2 Inl e2 by (cases e) (auto simp: adapter_body_def)
    next
      case (Inr h1')
      then obtain h2' where h2': "store_item h2 r2 key v = Inr h2'" "cells h1' r1 = cells h2' r2"
        "\<forall>a. a \<noteq> r1 \<longrightarrow> cells h1' a = cells h1 a" "\<forall>a. a \<noteq> r2 \<longrightarrow> cells h2' a = cells h2 a"
        using st by auto
      have "cells h1' data = cells h2' data" using h2'(3,4) Cons.prems(1,3,4) by simp
      from Cons.IH [OF this h2'(2) Cons.prems(3,4)]
      show ?thesis using item \<open>?g = Inr v\<close> g2 Inr h2'(1) by (simp add: adapter_body_def)
    qed
  next
    case (Inl e)
    show ?thesis
    proof (cases "is_KeyError e")
      case False
      then show ?thesis using item Inl g2 by (cases e) (auto simp: adapter_body_def)
    next
      case True
      then obtain k where e: "e = KeyError k" by (cases e) auto
      show ?thesis
      proof (cases fill)
        case False
        then show ?thesis using item Inl g2 e Cons.IH [OF Cons.prems]
          by (simp add: adapter_body_def)
      next
        case True
        note st = store_item_agree [OF Cons.prems(2), of key dflt]
        show ?thesis
        proof (cases "store_item h1 r1 key dflt")
          case (Inl e')
          then have "store_item h2 r2 key dflt = Inl e'" using st by simp
          then show ?thesis using item \<open>?g = Inl e\<close> g2 e True Inl by (simp add: adapter_body_def)
        next
          case (Inr h1')
          then obtain h2' where h2': "store_item h2 r2 key dflt = Inr h2'" "cells h1' r1 = cells h2' r2"
            "\<forall>a. a \<noteq> r1 \<longrightarrow> cells h1' a = cells h1 a" "\<forall>a. a \<noteq> r2 \<longrightarrow> cells h2' a = cells h2 a"
            using st by auto
          have "cells h1' data = cells h2' data" using h2'(3,4) Cons.prems(1,3,4) by simp
          from Cons.IH [OF this h2'(2) Cons.prems(3,4)]
          show ?thesis using item \<open>?g = Inl e\<close> g2 e True Inr h2'(1) by (simp add: adapter_body_def)
        qed
      qed
    qed
  qed
qed

lemma adapter_call_agree:
  assumes "cells h1 (closure_mapper c) = cells h2 (closure_mapper c)" "cells h1 data = cells h2 data"
    and "closure_mapper c < next_free h1" "closure_mapper c < next_free h2"
    and "data < next_free h1" "data < next_free h2"
  shows "call_outcome (adapter_call c data dflt fill h1) = call_outcome (adapter_call c data dflt fill h2)"
proof -
  let ?k1 = "\<lparr>cells = (cells h1)(next_free h1 := PDict []), next_free = Suc (next_free h1)\<rparr>"
  let ?k2 = "\<lparr>cells = (cells h2)(next_free h2 := PDict []), next_free = Suc (next_free h2)\<rparr>"
  have m: "cells ?k1 (closure_mapper c) = cells h1 (closure_mapper c)"
    "cells ?k2 (closure_mapper c) = cells h1 (closure_mapper c)"
    using assms by auto
  have d: "cells ?k1 data = cells ?k2 data" using assms by auto
  have r: "cells ?k1 (next_free h1) = cells ?k2 (next_free h2)" by simp
  have ne: "next_free h1 \<noteq> data" "next_free h2 \<noteq> data" using assms by auto
  show ?thesis
  proof (cases "py_items (cells h1 (closure_mapper c))")
    case (Inl e)
    then show ?thesis using m by (simp add: adapter_call_def heap_alloc_def)
  next
    case (Inr items)
    then show ?thesis using m adapter_items_agree [OF d r ne, of c dflt fill items]
      by (simp add: adapter_call_def heap_alloc_def)
  qed
qed

lemma adapter_items_adapter_loop:
  "cells h r = PDict acc \<Longrightarrow> r \<noteq> data \<Longrightarrow>
   call_outcome (adapter_items c data dflt fill (map (\<lambda>(k, l). (k, PStr l)) mapper) r h) =
   map_sum id PDict (adapter_loop (closure_sep c) (cells h data) dflt fill mapper acc)"
proof (induction mapper arbitrary: h acc)
  case Nil
  then show ?case by simp
next
  case (Cons item mapper)
  obtain key loc where item: "item = (key, loc)" by (cases item)
  have st: "store_item h r key v = Inr (heap_write h r (PDict (dict_set acc key v)))" for v
    using Cons.prems(1) by (simp add: store_item_def)
  have step: "cells (heap_write h r (PDict (dict_set acc key v))) r = PDict (dict_set acc key v)"
    "cells (heap_write h r (PDict (dict_set acc key v))) data = cells h data" for v
    using Cons.prems(2) by (simp_all add: heap_write_def)
  show ?case
  proof (cases "get (closure_sep c) (cells h data) loc")
    case (Inr v)
    show ?thesis
      using item Inr st [of v] Cons.IH [OF step(1) Cons.prems(2), of v] step(2) [of v]
      by (simp add: adapter_body_def)
  next
    case (Inl e)
    show ?thesis
    proof (cases "is_KeyError e")
      case False
      then show ?thesis using item Inl by (cases e) (auto simp: adapter_body_def)
    next
      case True
      then obtain k where e: "e = KeyError k" by (cases e) auto
      show ?thesis
      proof (cases fill)
        case False
        then show ?thesis using item Inl e Cons.IH [OF Cons.prems] by (simp add: adapter_body_def)
      next
        case True
        then show ?thesis
          using item Inl e st [of dflt] Cons.IH [OF step(1) Cons.prems(2), of dflt] step(2) [of dflt]
          by (simp add: adapter_body_def)
      qed
    qed
  qed
qed

lemma adapter_call_adapter:
  assumes "cells h (closure_mapper c) = PDict (map (\<lambda>(k, l). (k, PStr l)) mapper)"
    and "closure_mapper c < next_free h" "data < next_free h"
  shows "call_outcome (adapter_call c data dflt fill h) =
         map_sum id PDict (build_adapter mapper (closure_sep c) (cells h data) dflt fill)"
proof -
  let ?h1 = "\<lparr>cells = (cells h)(next_free h := PDict []), next_free = Suc (next_free h)\<rparr>"
  have m: "cells ?h1 (closure_mapper c) = PDict (map (\<lambda>(k, l). (k, PStr l)) mapper)"
    using assms(1,2) by simp
  have d: "cells ?h1 data = cells h data" using assms(3) by simp
  have "cells ?h1 (next_free h) = PDict []" "next_free h \<noteq> data" using assms(3) by auto
  from adapter_items_adapter_loop [OF this, of c dflt fill mapper]
  show ?thesis using m d by (simp add: adapter_call_def heap_alloc_def build_adapter_def adapter_def)
qed

text \<open>
  Claim C9. A call of the adapter leaves the closure variables (the reference to the
  mapping and the separator) as they were and writes to no object but the result that it
  allocates: the mapping object and every document are as before. So what a later call
  returns for any document is what it would have returned without the earlier call. What
  a call returns is the record that \<^verbatim>\<open>build_adapter\<close> gives for the items of the mapping
  object and the document.
\<close>

theorem adapter_stateless:
  "adapter_call c data dflt fill h = (res, c', h') \<Longrightarrow>
   closure_mapper c < next_free h \<Longrightarrow>
   c' = c \<and> (\<forall>a<next_free h. cells h' a = cells h a) \<and>
   (\<forall>data2 dflt2 fill2. data2 < next_free h \<longrightarrow>
      call_outcome (adapter_call c' data2 dflt2 fill2 h') =
      call_outcome (adapter_call c data2 dflt2 fill2 h)) \<and>
   (\<forall>mapper. cells h (closure_mapper c) = PDict (map (\<lambda>(k, l). (k, PStr l)) mapper) \<and>
      data < next_free h \<longrightarrow>
      call_outcome (res, c', h') =
      map_sum id PDict (build_adapter mapper (closure_sep c) (cells h data) dflt fill))"
proof -
  assume run: "adapter_call c data dflt fill h = (res, c', h')"
    and m: "closure_mapper c < next_free h"
  note fr = adapter_call_frame [OF run]
  have unchanged: "\<forall>a<next_free h. cells h' a = cells h a" using fr(2) by simp
  have later: "call_outcome (adapter_call c data2 dflt2 fill2 h') =
        call_outcome (adapter_call c data2 dflt2 fill2 h)" if "data2 < next_free h" for data2 dflt2 fill2
    using unchanged m that fr(3) by (intro adapter_call_agree) auto
  have "call_outcome (res, c', h') =
      map_sum id PDict (build_adapter mapper (closure_sep c) (cells h data) dflt fill)"
    if "cells h (closure_mapper c) = PDict (map (\<lambda>(k, l). (k, PStr l)) mapper)" "data < next_free h"
    for mapper
    using adapter_call_adapter [OF that(1) m that(2), of dflt fill] run by simp
  then show ?thesis using fr(1) unchanged later by simp
qed

theorem adapter_stateless_witness:
  "call_outcome
     (adapter_call \<lparr>closure_mapper = 0, closure_sep = ''.''\<rparr> 2 PNone True
        (snd (snd (adapter_call \<lparr>closure_mapper = 0, closure_sep = ''.''\<rparr> 1 PNone False
           \<lparr>cells = (\<lambda>a. PNone)(0 := PDict [(''a'', PStr ''x.y'')],
               1 := PDict [(''x'', PDict [(''y'', PInt 5)])], 2 := PDict [(''x'', PDict [])]),
            next_free = 3\<rparr>)))) =
   call_outcome
     (adapter_call \<lparr>closure_mapper = 0, closure_sep = ''.''\<rparr> 2 PNone True
        \<lparr>cells = (\<lambda>a. PNone)(0 := PDict [(''a'', PStr ''x.y'')],
            1 := PDict [(''x'', PDict [(''y'', PInt 5)])], 2 := PDict [(''x'', PDict [])]),
         next_free = 3\<rparr>) \<and>
   call_outcome
     (adapter_call \<lparr>closure_mapper = 0, closure_sep = ''.''\<rparr> 1 PNone False
        \<lparr>cells = (\<lambda>a. PNone)(0 := PDict [(''a'', PStr ''x.y'')],
            1 := PDict [(''x'', PDict [(''y'', PInt 5)])], 2 := PDict [(''x'', PDict [])]),
         next_free = 3\<rparr>) = Inr (PDict [(''a'', PInt 5)])"
proof -
  let ?c = "\<lparr>closure_mapper = 0, closure_sep = ''.''\<rparr>"
  let ?h = "\<lparr>cells = (\<lambda>a. PNone)(0 := PDict [(''a'', PStr ''x.y'')],
               1 := PDict [(''x'', PDict [(''y'', PInt 5)])], 2 := PDict [(''x'', PDict [])]),
            next_free = 3\<rparr>"
  obtain res c' h' where run: "adapter_call ?c 1 PNone False ?h = (res, c', h')"
    by (cases "adapter_call ?c 1 PNone False ?h") auto
  have m: "closure_mapper ?c < next_free ?h" by simp
  have d2: "(2::nat) < next_free ?h" by simp
  have mo: "cells ?h (closure_mapper ?c) = PDict (map (\<lambda>(k, l). (k, PStr l)) [(''a'', ''x.y'')]) \<and>
      (1::nat) < next_free ?h"
    by simp
  have b: "build_adapter [(''a'', ''x.y'')] ''.'' (PDict [(''x'', PDict [(''y'', PInt 5)])]) PNone False
      = Inr [(''a'', PInt 5)]"
    by (simp add: adapter_eval)
  note st = adapter_stateless [OF run m]
  have "c' = ?c" using st by blast
  moreover have "call_outcome (adapter_call c' 2 PNone True h') =
      call_outcome (adapter_call ?c 2 PNone True ?h)"
    using st d2 by blast
  moreover have "snd (snd (adapter_call ?c 1 PNone False ?h)) = h'"
    by (simp only: run snd_conv)
  moreover have "call_outcome (res, c', h') =
      map_sum id PDict (build_adapter [(''a'', ''x.y'')] (closure_sep ?c) (cells ?h 1) PNone False)"
    using st mo by blast
  then have "call_outcome (adapter_call ?c 1 PNone False ?h) = Inr (PDict [(''a'', PInt 5)])"
    using b by (simp only: run) simp
  ultimately show ?thesis by (simp only:)
qed

lemma map_of_dict_set:
  "map_of (dict_set d k v) k' = (if k' = k then Some v else map_of d k')"
  by (induction d) auto

lemma keys_dict_set_present:
  "map_of d k = Some v \<Longrightarrow> map fst (dict_set d k w) = map fst d"
  by (induction d) (auto split: if_splits)

lemma convert_body_absent:
  "cells h data = PDict d \<Longrightarrow> map_of d k = None \<Longrightarrow> convert_body func k data h = Inl (KeyError k)"
  by (simp add: convert_body_def)

lemma convert_body_raises:
  "cells h data = PDict d \<Longrightarrow> map_of d k = Some v \<Longrightarrow> func v = Inl e \<Longrightarrow>
   convert_body func k data h = Inl e"
  by (simp add: convert_body_def)

lemma convert_body_converts:
  "cells h data = PDict d \<Longrightarrow> map_of d k = Some v \<Longrightarrow> func v = Inr w \<Longrightarrow>
   convert_body func k data h = Inr (heap_write h data (PDict (dict_set d k w)))"
  by (simp add: convert_body_def)

lemma convert_body_cases:
  assumes "cells h data = PDict d"
  obtains (absent) "map_of d k = None" "convert_body func k data h = Inl (KeyError k)"
  | (raises) v e where "map_of d k = Some v" "func v = Inl e" "convert_body func k data h = Inl e"
  | (converts) v w where "map_of d k = Some v" "func v = Inr w"
      "convert_body func k data h = Inr (heap_write h data (PDict (dict_set d k w)))"
proof (cases "map_of d k")
  case None
  then show ?thesis using absent convert_body_absent [OF assms] by blast
next
  case (Some v)
  show ?thesis
  proof (cases "func v")
    case (Inl e)
    then show ?thesis using raises Some convert_body_raises [OF assms Some] by blast
  next
    case (Inr w)
    then show ?thesis using converts Some convert_body_converts [OF assms Some] by blast
  qed
qed

lemma inner_convert_frame:
  "cells h data = PDict d \<Longrightarrow> inner_convert func keys data h = (res, h') \<Longrightarrow>
   (\<exists>d'. cells h' data = PDict d' \<and> map fst d' = map fst d \<and>
      (\<forall>k. k \<notin> set keys \<longrightarrow> map_of d' k = map_of d k)) \<and>
   (\<forall>a. a \<noteq> data \<longrightarrow> cells h' a = cells h a) \<and> next_free h' = next_free h \<and>
   (\<forall>r. res = Inr r \<longrightarrow> r = data)"
proof (induction keys arbitrary: h d)
  case Nil
  then show ?case by auto
next
  case (Cons k keys)
  from Cons.prems(1) show ?case
  proof (cases rule: convert_body_cases [where k = k and func = func])
    case absent
    then have "inner_convert func keys data h = (res, h')" using Cons.prems(2) by simp
    from Cons.IH [OF Cons.prems(1) this] show ?thesis by auto
  next
    case (raises v e)
    show ?thesis
    proof (cases "is_KeyError e")
      case True
      then obtain x where "e = KeyError x" by (cases e) auto
      then have "inner_convert func keys data h = (res, h')" using Cons.prems(2) raises by simp
      from Cons.IH [OF Cons.prems(1) this] show ?thesis by auto
    next
      case False
      then have "res = Inl e \<and> h' = h" using Cons.prems(2) raises by (cases e) auto
      then show ?thesis using Cons.prems(1) by simp
    qed
  next
    case (converts v w)
    let ?h1 = "heap_write h data (PDict (dict_set d k w))"
    have c1: "cells ?h1 data = PDict (dict_set d k w)" by (simp add: heap_write_def)
    have run: "inner_convert func keys data ?h1 = (res, h')" using Cons.prems(2) converts by simp
    from Cons.IH [OF c1 run] obtain d' where
      d': "cells h' data = PDict d'" "map fst d' = map fst (dict_set d k w)"
        "\<forall>k'. k' \<notin> set keys \<longrightarrow> map_of d' k' = map_of (dict_set d k w) k'"
      and rest: "\<forall>a. a \<noteq> data \<longrightarrow> cells h' a = cells ?h1 a" "next_free h' = next_free ?h1"
        "\<forall>r. res = Inr r \<longrightarrow> r = data"
      by blast
    have "map fst d' = map fst d" using d'(2) converts(1) by (simp add: keys_dict_set_present)
    moreover have "\<forall>k'. k' \<notin> set (k # keys) \<longrightarrow> map_of d' k' = map_of d k'"
      using d'(3) by (simp add: map_of_dict_set)
    ultimately show ?thesis using d'(1) rest by (auto simp: heap_write_def)
  qed
qed

lemma inner_convert_value:
  "distinct keys \<Longrightarrow> cells h data = PDict d \<Longrightarrow> inner_convert func keys data h = (Inr r, h') \<Longrightarrow>
   cells h' data = PDict d' \<Longrightarrow> k \<in> set keys \<Longrightarrow> map_of d k = Some v \<Longrightarrow> func v = Inr w \<Longrightarrow>
   map_of d' k = Some w"
proof (induction keys arbitrary: h d)
  case Nil
  then show ?case by simp
next
  case (Cons k0 keys)
  from Cons.prems(2) show ?case
  proof (cases rule: convert_body_cases [where k = k0 and func = func])
    case absent
    then have run: "inner_convert func keys data h = (Inr r, h')" using Cons.prems(3) by simp
    have "k \<noteq> k0" using absent Cons.prems(6) by auto
    then have "k \<in> set keys" using Cons.prems(5) by simp
    with Cons.IH [OF _ Cons.prems(2) run Cons.prems(4) _ Cons.prems(6,7)] Cons.prems(1)
    show ?thesis by simp
  next
    case (raises v0 e)
    then obtain x where e: "e = KeyError x" using Cons.prems(3) by (cases e) auto
    then have run: "inner_convert func keys data h = (Inr r, h')" using Cons.prems(3) raises by simp
    have "k \<noteq> k0" using raises Cons.prems(6,7) by auto
    then have "k \<in> set keys" using Cons.prems(5) by simp
    with Cons.IH [OF _ Cons.prems(2) run Cons.prems(4) _ Cons.prems(6,7)] Cons.prems(1)
    show ?thesis by simp
  next
    case (converts v0 w0)
    let ?d1 = "dict_set d k0 w0"
    let ?h1 = "heap_write h data (PDict ?d1)"
    have c1: "cells ?h1 data = PDict ?d1" by (simp add: heap_write_def)
    have run: "inner_convert func keys data ?h1 = (Inr r, h')" using Cons.prems(3) converts by simp
    show ?thesis
    proof (cases "k = k0")
      case True
      then have "w0 = w" using converts Cons.prems(6,7) by simp
      moreover have "k \<notin> set keys" using True Cons.prems(1) by simp
      ultimately show ?thesis
        using inner_convert_frame [OF c1 run] Cons.prems(4) True by (auto simp: map_of_dict_set)
    next
      case False
      then have mem: "k \<in> set keys" using Cons.prems(5) by simp
      have look: "map_of ?d1 k = Some v" using False Cons.prems(6) by (simp add: map_of_dict_set)
      have dk: "distinct keys" using Cons.prems(1) by simp
      show ?thesis by (rule Cons.IH [OF dk c1 run Cons.prems(4) mem look Cons.prems(7)])
    qed
  qed
qed

lemma inner_convert_total:
  "cells h data = PDict d \<Longrightarrow> \<forall>v. \<exists>w. func v = Inr w \<Longrightarrow>
   \<exists>h'. inner_convert func keys data h = (Inr data, h')"
proof (induction keys arbitrary: h d)
  case Nil
  then show ?case by simp
next
  case (Cons k keys)
  from Cons.prems(1) show ?case
  proof (cases rule: convert_body_cases [where k = k and func = func])
    case absent
    then show ?thesis using Cons.IH [OF Cons.prems] by simp
  next
    case (raises v e)
    then show ?thesis using Cons.prems(2) by (metis sum.distinct(1))
  next
    case (converts v w)
    let ?h1 = "heap_write h data (PDict (dict_set d k w))"
    have c1: "cells ?h1 data = PDict (dict_set d k w)" by (simp add: heap_write_def)
    from Cons.IH [OF c1 Cons.prems(2)] show ?thesis using converts by simp
  qed
qed

section \<open>The field converter\<close>

lemma inner_convert_apply_times:
  "cells h data = PDict d \<Longrightarrow> inner_convert func keys data h = (Inr r, h') \<Longrightarrow>
   cells h' data = PDict d' \<Longrightarrow>
   map_of d' k = map_option (apply_times func (count_list keys k)) (map_of d k)"
proof (induction keys arbitrary: h d)
  case Nil
  then show ?case by (cases "map_of d k") auto
next
  case (Cons k0 keys)
  from Cons.prems(1) show ?case
  proof (cases rule: convert_body_cases [where k = k0 and func = func])
    case absent
    then have run: "inner_convert func keys data h = (Inr r, h')" using Cons.prems(2) by simp
    have "map_of d' k = map_option (apply_times func (count_list keys k)) (map_of d k)"
      by (rule Cons.IH [OF Cons.prems(1) run Cons.prems(3)])
    then show ?thesis using absent(1) by (cases "k0 = k") auto
  next
    case (raises v e)
    then obtain x where e: "e = KeyError x" using Cons.prems(2) by (cases e) auto
    then have run: "inner_convert func keys data h = (Inr r, h')"
      using Cons.prems(2) raises by simp
    have "map_of d' k = map_option (apply_times func (count_list keys k)) (map_of d k)"
      by (rule Cons.IH [OF Cons.prems(1) run Cons.prems(3)])
    then show ?thesis using raises(1,2) by (cases "k0 = k") auto
  next
    case (converts v w)
    let ?d1 = "dict_set d k0 w"
    let ?h1 = "heap_write h data (PDict ?d1)"
    have c1: "cells ?h1 data = PDict ?d1" by (simp add: heap_write_def)
    have run: "inner_convert func keys data ?h1 = (Inr r, h')" using Cons.prems(2) converts by simp
    have "map_of d' k = map_option (apply_times func (count_list keys k)) (map_of ?d1 k)"
      by (rule Cons.IH [OF c1 run Cons.prems(3)])
    then show ?thesis using converts(1,2) by (cases "k0 = k") (auto simp: map_of_dict_set)
  qed
qed

text \<open>
  Claim C7. The converter returns the address it was given, for every function (of its
  argument alone) and every tuple of key names; in the record at that address the keys
  and their order are as before, and every field holds what \<open>func\<close> makes of its old
  value, applied once for each time that the name of the field is listed: a field that is
  not listed has its old value, a listed name that is absent stays absent, a field with
  value \<open>v\<close> that is listed once holds \<open>func v\<close>, and one that is listed twice holds
  \<open>func (func v)\<close>. No other object changes. A function that returns a value on every
  argument makes the converter return. The two examples of the specification evaluate as
  stated.
\<close>

theorem inner_converts_listed_fields:
  "(cells h data = PDict d \<and> inner func keys data h = (Inr r, h') \<longrightarrow>
      r = data \<and>
      (\<exists>d'. cells h' data = PDict d' \<and> map fst d' = map fst d \<and>
         (\<forall>k. map_of d' k = map_option (apply_times func (count_list keys k)) (map_of d k)) \<and>
         (\<forall>k. k \<notin> set keys \<longrightarrow> map_of d' k = map_of d k) \<and>
         (distinct keys \<longrightarrow>
            (\<forall>k\<in>set keys. \<forall>v w. map_of d k = Some v \<and> func v = Inr w \<longrightarrow> map_of d' k = Some w))) \<and>
      (\<forall>a. a \<noteq> data \<longrightarrow> cells h' a = cells h a)) \<and>
   (cells h data = PDict d \<and> (\<forall>v. \<exists>w. func v = Inr w) \<longrightarrow>
      (\<exists>h'. inner func keys data h = (Inr data, h'))) \<and>
   (func (PStr ''1500'') = Inr (PInt 1500) \<and>
    cells h data = PDict [(''rating'', PStr ''1500''), (''name'', PStr ''x'')] \<longrightarrow>
      inner func [''rating''] data h =
        (Inr data, heap_write h data (PDict [(''rating'', PInt 1500), (''name'', PStr ''x'')]))) \<and>
   (cells h data = PDict [(''name'', PStr ''x'')] \<longrightarrow> inner func [''rating''] data h = (Inr data, h))"
proof (intro conjI impI)
  assume a: "cells h data = PDict d \<and> inner func keys data h = (Inr r, h')"
  then have c: "cells h data = PDict d" and run: "inner_convert func keys data h = (Inr r, h')"
    by (simp_all add: inner_def)
  note fr = inner_convert_frame [OF c run]
  from fr show "r = data" by blast
  from fr show "\<forall>a. a \<noteq> data \<longrightarrow> cells h' a = cells h a" by blast
  from fr obtain d' where d': "cells h' data = PDict d'" "map fst d' = map fst d"
    "\<forall>k. k \<notin> set keys \<longrightarrow> map_of d' k = map_of d k" by blast
  have "\<forall>k\<in>set keys. \<forall>v w. map_of d k = Some v \<and> func v = Inr w \<longrightarrow> map_of d' k = Some w"
    if "distinct keys"
    using inner_convert_value [OF that c run d'(1)] by blast
  moreover have "\<forall>k. map_of d' k = map_option (apply_times func (count_list keys k)) (map_of d k)"
    using inner_convert_apply_times [OF c run d'(1)] by blast
  ultimately show "\<exists>d'. cells h' data = PDict d' \<and> map fst d' = map fst d \<and>
         (\<forall>k. map_of d' k = map_option (apply_times func (count_list keys k)) (map_of d k)) \<and>
         (\<forall>k. k \<notin> set keys \<longrightarrow> map_of d' k = map_of d k) \<and>
         (distinct keys \<longrightarrow>
            (\<forall>k\<in>set keys. \<forall>v w. map_of d k = Some v \<and> func v = Inr w \<longrightarrow> map_of d' k = Some w))"
    using d' by blast
next
  assume "cells h data = PDict d \<and> (\<forall>v. \<exists>w. func v = Inr w)"
  then show "\<exists>h'. inner func keys data h = (Inr data, h')"
    using inner_convert_total [of h data d func keys] by (simp add: inner_def)
next
  assume "func (PStr ''1500'') = Inr (PInt 1500) \<and>
    cells h data = PDict [(''rating'', PStr ''1500''), (''name'', PStr ''x'')]"
  then show "inner func [''rating''] data h =
        (Inr data, heap_write h data (PDict [(''rating'', PInt 1500), (''name'', PStr ''x'')]))"
    by (simp add: inner_def convert_body_def)
next
  assume "cells h data = PDict [(''name'', PStr ''x'')]"
  then show "inner func [''rating''] data h = (Inr data, h)"
    by (simp add: inner_def convert_body_def)
qed

text \<open>
  Claim C10. When a listed key is present and \<open>func\<close> raises \<^verbatim>\<open>KeyError\<close> on its value,
  the converter goes on with the next key on the unchanged store: the field keeps its
  value and the error does not reach the caller.
\<close>

theorem inner_swallows_KeyError_of_func:
  "cells h data = PDict d \<and> map_of d k = Some v \<and> func v = Inl (KeyError x) \<longrightarrow>
     inner func (k # keys) data h = inner func keys data h \<and>
     inner func [k] data h = (Inr data, h)"
  by (simp add: inner_def convert_body_def)

theorem inner_converts_listed_fields_witness:
  "(\<exists>d'. cells (snd (inner (\<lambda>v. if v = PStr ''1500'' then Inr (PInt 1500) else Inl ValueError) [''rating''] 0
        \<lparr>cells = (\<lambda>a. PNone)(0 := PDict [(''rating'', PStr ''1500''), (''name'', PStr ''x'')]), next_free = 1\<rparr>)) 0
        = PDict d' \<and>
      map_of d' ''rating'' = Some (PInt 1500) \<and> map_of d' ''name'' = Some (PStr ''x'')) \<and>
   (\<exists>h' d'. inner (\<lambda>v. Inr (PList [v])) [''rating'', ''name'', ''rating''] 0
        \<lparr>cells = (\<lambda>a. PNone)(0 := PDict [(''rating'', PStr ''1500''), (''name'', PStr ''x'')]), next_free = 1\<rparr>
        = (Inr 0, h') \<and> cells h' 0 = PDict d' \<and>
      map_of d' ''rating'' = Some (PList [PList [PStr ''1500''] ]) \<and>
      map_of d' ''name'' = Some (PList [PStr ''x''])) \<and>
   inner (\<lambda>v. if v = PStr ''1500'' then Inr (PInt 1500) else Inl ValueError) [''rating''] 0
        \<lparr>cells = (\<lambda>a. PNone)(0 := PDict [(''name'', PStr ''x'')]), next_free = 1\<rparr>
     = (Inr 0, \<lparr>cells = (\<lambda>a. PNone)(0 := PDict [(''name'', PStr ''x'')]), next_free = 1\<rparr>)"
proof -
  let ?f = "\<lambda>v. if v = PStr ''1500'' then Inr (PInt 1500) else Inl ValueError"
  let ?g = "\<lambda>v. Inr (PList [v]) :: error + pyval"
  let ?d = "[(''rating'', PStr ''1500''), (''name'', PStr ''x'')]"
  let ?h = "\<lparr>cells = (\<lambda>a. PNone)(0 := PDict ?d), next_free = 1\<rparr>"
  let ?h2 = "\<lparr>cells = (\<lambda>a. PNone)(0 := PDict [(''name'', PStr ''x'')]), next_free = 1\<rparr>"
  let ?ks = "[''rating'', ''name'', ''rating'']"
  have f: "?f (PStr ''1500'') = Inr (PInt 1500)" by simp
  have c: "cells ?h 0 = PDict ?d" by simp
  have c2: "cells ?h2 0 = PDict [(''name'', PStr ''x'')]" by simp
  have g: "\<forall>v. \<exists>w. ?g v = Inr w" by simp
  note p1 = inner_converts_listed_fields [where func = ?f and h = ?h and data = 0 and d = ?d
      and keys = "[''rating'']", THEN conjunct1, rule_format]
  note q1 = inner_converts_listed_fields [where func = ?g and h = ?h and data = 0 and d = ?d
      and keys = ?ks, THEN conjunct1, rule_format]
  note p2 = inner_converts_listed_fields [where func = ?g and h = ?h and data = 0 and d = ?d
      and keys = ?ks, THEN conjunct2, THEN conjunct1, rule_format]
  note p3 = inner_converts_listed_fields [where func = ?f and h = ?h and data = 0,
      THEN conjunct2, THEN conjunct2, THEN conjunct1, rule_format]
  note p4 = inner_converts_listed_fields [where func = ?f and h = ?h2 and data = 0,
      THEN conjunct2, THEN conjunct2, THEN conjunct2, rule_format]
  have run: "inner ?f [''rating''] 0 ?h =
      (Inr 0, heap_write ?h 0 (PDict [(''rating'', PInt 1500), (''name'', PStr ''x'')]))"
    using f c by (rule p3 [OF conjI])
  let ?h' = "heap_write ?h 0 (PDict [(''rating'', PInt 1500), (''name'', PStr ''x'')])"
  from p1 [OF conjI [OF c run] ] obtain d' where
    d': "cells ?h' 0 = PDict d'" "\<forall>k. k \<notin> set [''rating''] \<longrightarrow> map_of d' k = map_of ?d k"
      "distinct [''rating''] \<longrightarrow>
         (\<forall>k\<in>set [''rating'']. \<forall>v w. map_of ?d k = Some v \<and> ?f v = Inr w \<longrightarrow> map_of d' k = Some w)"
    by blast
  have "map_of d' ''name'' = Some (PStr ''x'')" using d'(2) by simp
  moreover have "map_of d' ''rating'' = Some (PInt 1500)" using d'(3) by simp
  moreover have "snd (inner ?f [''rating''] 0 ?h) = ?h'" by (simp only: run snd_conv)
  ultimately have w1: "\<exists>d'. cells (snd (inner ?f [''rating''] 0 ?h)) 0 = PDict d' \<and>
      map_of d' ''rating'' = Some (PInt 1500) \<and> map_of d' ''name'' = Some (PStr ''x'')"
    using d'(1) by (simp only:) blast
  obtain h2 where run2: "inner ?g ?ks 0 ?h = (Inr 0, h2)"
    using p2 [OF conjI [OF c g] ] by blast
  from q1 [OF conjI [OF c run2] ] obtain e' where
    e': "cells h2 0 = PDict e'"
      "\<forall>k. map_of e' k = map_option (apply_times ?g (count_list ?ks k)) (map_of ?d k)"
    by blast
  have "map_of e' ''rating'' = Some (PList [PList [PStr ''1500''] ])"
    using e'(2) [rule_format, of "''rating''"] by (simp add: eval_nat_numeral)
  moreover have "map_of e' ''name'' = Some (PList [PStr ''x''])"
    using e'(2) [rule_format, of "''name''"] by simp
  ultimately have w2: "\<exists>h' d'. inner ?g ?ks 0 ?h = (Inr 0, h') \<and> cells h' 0 = PDict d' \<and>
      map_of d' ''rating'' = Some (PList [PList [PStr ''1500''] ]) \<and>
      map_of d' ''name'' = Some (PList [PStr ''x''])"
    using run2 e'(1) by blast
  have w4: "inner ?f [''rating''] 0 ?h2 = (Inr 0, ?h2)"
    using c2 by (rule p4)
  show ?thesis using w1 w2 w4 by (intro conjI)
qed

theorem inner_swallows_KeyError_of_func_witness:
  "inner (\<lambda>v. py_getitem v ''elo'') [''rating'', ''name''] 0
     \<lparr>cells = (\<lambda>a. PNone)(0 := PDict [(''rating'', PDict [(''glicko'', PInt 1500)]), (''name'', PInt 7)]),
      next_free = 1\<rparr> =
   inner (\<lambda>v. py_getitem v ''elo'') [''name''] 0
     \<lparr>cells = (\<lambda>a. PNone)(0 := PDict [(''rating'', PDict [(''glicko'', PInt 1500)]), (''name'', PInt 7)]),
      next_free = 1\<rparr>"
proof -
  let ?f = "\<lambda>v. py_getitem v ''elo''"
  let ?d = "[(''rating'', PDict [(''glicko'', PInt 1500)]), (''name'', PInt 7)]"
  let ?h = "\<lparr>cells = (\<lambda>a. PNone)(0 := PDict ?d), next_free = 1\<rparr>"
  have "cells ?h 0 = PDict ?d \<and> map_of ?d ''rating'' = Some (PDict [(''glicko'', PInt 1500)]) \<and>
      ?f (PDict [(''glicko'', PInt 1500)]) = Inl (KeyError ''elo'')"
    by simp
  from inner_swallows_KeyError_of_func [where func = ?f and keys = "[''name'']", rule_format, OF this]
  show ?thesis by blast
qed

section \<open>The list converter\<close>

lemma heap_write_same: "cells h r = v \<Longrightarrow> heap_write h r v = h"
  by (auto simp: heap_write_def)

lemma listing_loop_maps:
  "cells h r = PList acc \<Longrightarrow> map func xs = map Inr ys \<Longrightarrow>
   listing_loop func xs r h = (Inr r, heap_write h r (PList (acc @ ys)))"
proof (induction xs arbitrary: ys acc h)
  case Nil
  then show ?case by (simp add: heap_write_same)
next
  case (Cons x xs)
  from Cons.prems(2) obtain y ys' where ys: "ys = y # ys'" "func x = Inr y" "map func xs = map Inr ys'"
    by (cases ys) auto
  let ?h1 = "list_append h r y"
  have h1: "?h1 = heap_write h r (PList (acc @ [y]))" using Cons.prems(1) by (simp add: list_append_def)
  then have c1: "cells ?h1 r = PList (acc @ [y])" by (simp add: heap_write_def)
  have "listing_loop func xs r ?h1 = (Inr r, heap_write ?h1 r (PList ((acc @ [y]) @ ys')))"
    using c1 ys(3) by (rule Cons.IH)
  then show ?case using ys h1 by (simp add: heap_write_def)
qed

text \<open>
  Claim C8. For a function that returns a value on every element that the iteration of
  \<open>items\<close> yields, the converter returns a new address, one that was not allocated
  before the call; the object there is the list of the function's values, in the order of
  the iteration and of its length; every object that existed before, \<open>items\<close> among them,
  is as it was. \<^verbatim>\<open>listing(str)\<close> applied to \<^verbatim>\<open>[1, 2, 3]\<close> gives the new list
  \<^verbatim>\<open>["1", "2", "3"]\<close>.
\<close>

theorem listing_maps_into_new_list:
  "(items < next_free h \<and> py_iter (cells h items) = Inr xs \<and> map func xs = map Inr ys \<longrightarrow>
      listing func items h =
        (Inr (next_free h), \<lparr>cells = (cells h)(next_free h := PList ys), next_free = Suc (next_free h)\<rparr>) \<and>
      length ys = length xs \<and> (\<forall>i<length xs. func (xs ! i) = Inr (ys ! i))) \<and>
   (items < next_free h \<and> cells h items = PList [PInt 1, PInt 2, PInt 3] \<and>
    func (PInt 1) = Inr (PStr ''1'') \<and> func (PInt 2) = Inr (PStr ''2'') \<and> func (PInt 3) = Inr (PStr ''3'') \<longrightarrow>
      listing func items h =
        (Inr (next_free h),
         \<lparr>cells = (cells h)(next_free h := PList [PStr ''1'', PStr ''2'', PStr ''3'']),
          next_free = Suc (next_free h)\<rparr>))"
proof -
  have main: "listing func items h =
        (Inr (next_free h), \<lparr>cells = (cells h)(next_free h := PList ys), next_free = Suc (next_free h)\<rparr>)"
    if "items < next_free h" "py_iter (cells h items) = Inr xs" "map func xs = map Inr ys"
    for func xs ys
  proof -
    let ?r = "next_free h"
    let ?h1 = "\<lparr>cells = (cells h)(?r := PList []), next_free = Suc ?r\<rparr>"
    have it: "py_iter (cells ?h1 items) = Inr xs" using that(1,2) by simp
    have "cells ?h1 ?r = PList []" by simp
    then have "listing_loop func xs ?r ?h1 = (Inr ?r, heap_write ?h1 ?r (PList ([] @ ys)))"
      using that(3) by (rule listing_loop_maps)
    then show ?thesis using it
      by (simp add: listing_def listing_convert_def heap_alloc_def heap_write_def)
  qed
  have len: "length ys = length xs \<and> (\<forall>i<length xs. func (xs ! i) = Inr (ys ! i))"
    if "map func xs = map Inr ys" for xs ys
  proof -
    have l: "length ys = length xs" using that by (metis length_map)
    moreover have "func (xs ! i) = Inr (ys ! i)" if "i < length xs" for i
      using \<open>map func xs = map Inr ys\<close> that l by (metis nth_map)
    ultimately show ?thesis by blast
  qed
  show ?thesis
  proof (intro conjI impI)
    assume a: "items < next_free h \<and> cells h items = PList [PInt 1, PInt 2, PInt 3] \<and>
      func (PInt 1) = Inr (PStr ''1'') \<and> func (PInt 2) = Inr (PStr ''2'') \<and> func (PInt 3) = Inr (PStr ''3'')"
    then have "py_iter (cells h items) = Inr [PInt 1, PInt 2, PInt 3]"
      and "map func [PInt 1, PInt 2, PInt 3] = map Inr [PStr ''1'', PStr ''2'', PStr ''3'']"
      by simp_all
    with a show "listing func items h =
        (Inr (next_free h),
         \<lparr>cells = (cells h)(next_free h := PList [PStr ''1'', PStr ''2'', PStr ''3'']),
          next_free = Suc (next_free h)\<rparr>)"
      using main by blast
  qed (use main len in blast)+
qed

theorem listing_maps_into_new_list_witness:
  "listing (\<lambda>v. Inr (PList [v])) 0 \<lparr>cells = (\<lambda>a. PNone)(0 := PStr ''ab''), next_free = 1\<rparr> =
     (Inr 1, \<lparr>cells = (\<lambda>a. PNone)(0 := PStr ''ab'', 1 := PList [PList [PStr ''a''], PList [PStr ''b''] ]),
              next_free = 2\<rparr>) \<and>
   listing (\<lambda>v. case v of PInt n \<Rightarrow> Inr (PStr (if n = 1 then ''1'' else if n = 2 then ''2'' else ''3''))
                         | _ \<Rightarrow> Inl TypeError) 0
       \<lparr>cells = (\<lambda>a. PNone)(0 := PList [PInt 1, PInt 2, PInt 3]), next_free = 1\<rparr> =
     (Inr 1, \<lparr>cells = (\<lambda>a. PNone)(0 := PList [PInt 1, PInt 2, PInt 3], 1 := PList [PStr ''1'', PStr ''2'', PStr ''3'']),
              next_free = 2\<rparr>)"
proof -
  let ?g = "\<lambda>v. Inr (PList [v]) :: error + pyval"
  let ?h = "\<lparr>cells = (\<lambda>a. PNone)(0 := PStr ''ab''), next_free = 1\<rparr>"
  let ?f = "\<lambda>v. case v of PInt n \<Rightarrow> Inr (PStr (if n = 1 then ''1'' else if n = 2 then ''2'' else ''3''))
                         | _ \<Rightarrow> Inl TypeError"
  let ?h2 = "\<lparr>cells = (\<lambda>a. PNone)(0 := PList [PInt 1, PInt 2, PInt 3]), next_free = 1\<rparr>"
  have a1: "0 < next_free ?h \<and> py_iter (cells ?h 0) = Inr [PStr ''a'', PStr ''b''] \<and>
      map ?g [PStr ''a'', PStr ''b''] = map Inr [PList [PStr ''a''], PList [PStr ''b''] ]"
    by simp
  have a2: "0 < next_free ?h2 \<and> cells ?h2 0 = PList [PInt 1, PInt 2, PInt 3] \<and>
      ?f (PInt 1) = Inr (PStr ''1'') \<and> ?f (PInt 2) = Inr (PStr ''2'') \<and> ?f (PInt 3) = Inr (PStr ''3'')"
    by simp
  from listing_maps_into_new_list [where func = ?g and h = ?h and items = 0, THEN conjunct1, rule_format, OF a1]
  have w1: "listing ?g 0 ?h =
     (Inr 1, \<lparr>cells = (\<lambda>a. PNone)(0 := PStr ''ab'', 1 := PList [PList [PStr ''a''], PList [PStr ''b''] ]),
              next_free = 2\<rparr>)"
    by simp
  from listing_maps_into_new_list [where func = ?f and h = ?h2 and items = 0, THEN conjunct2, rule_format, OF a2]
  have w2: "listing ?f 0 ?h2 =
     (Inr 1, \<lparr>cells = (\<lambda>a. PNone)(0 := PList [PInt 1, PInt 2, PInt 3], 1 := PList [PStr ''1'', PStr ''2'', PStr ''3'']),
              next_free = 2\<rparr>)"
    by simp
  show ?thesis using w1 w2 by (intro conjI)
qed

section \<open>Time conversion\<close>

lemma double_1e6_literal: "double_1e6 = float_literal 1 6"
  by code_simp
lemma double_1e6_of_int: "double_of_int 1000000 = Inr double_1e6"
  by code_simp

text \<open>
  Claim C6. The string \<^verbatim>\<open>2021-06-15T12:00:00.000000Z\<close> and the float \<^verbatim>\<open>1623758400.0\<close>
  give the same instant, 12 o'clock on 15 June 2021 in UTC.
\<close>

theorem datetime_from_str_example:
  "datetime_from_str ''2021-06-15T12:00:00.000000Z'' =
     datetime_from_seconds (FloatNum (float_literal 16237584000 (- 1))) \<and>
   datetime_from_str ''2021-06-15T12:00:00.000000Z'' =
     Inr \<lparr>dt_year = 2021, dt_month = 6, dt_day = 15, dt_hour = 12, dt_minute = 0,
          dt_second = 0, dt_microsecond = 0, dt_tzinfo = utc\<rparr>"
  by code_simp

text \<open>
  Claim C4 fails on the code. The instant 2004-01-10 13:37:04.001 UTC is 1073741824001
  milliseconds after the epoch. Its timestamp is the float nearest to 1073741824.001,
  which lies below it; the product with 1000 is rounded to the float just below
  1073741824001, and \<^verbatim>\<open>int\<close> cuts it to 1073741824000. The way back gives
  13:37:04.000, one millisecond before the instant.
\<close>

theorem to_millis_loses_a_millisecond:
  "field_microseconds \<lparr>dt_year = 2004, dt_month = 1, dt_day = 10, dt_hour = 13, dt_minute = 37,
       dt_second = 4, dt_microsecond = 1000, dt_tzinfo = utc\<rparr> = 1073741824001 * 1000 \<and>
   timestamp mktime \<lparr>dt_year = 2004, dt_month = 1, dt_day = 10, dt_hour = 13, dt_minute = 37,
       dt_second = 4, dt_microsecond = 1000, dt_tzinfo = utc\<rparr> = Inr (Finite False 4503599627374690 (- 22)) \<and>
   double_mul (Finite False 4503599627374690 (- 22)) (Finite False 8796093022208000 (- 43)) =
     Finite False 8796093022216191 (- 13) \<and>
   to_millis mktime \<lparr>dt_year = 2004, dt_month = 1, dt_day = 10, dt_hour = 13, dt_minute = 37,
       dt_second = 4, dt_microsecond = 1000, dt_tzinfo = utc\<rparr> = Inr 1073741824000 \<and>
   datetime_from_millis (IntNum 1073741824000) =
     Inr \<lparr>dt_year = 2004, dt_month = 1, dt_day = 10, dt_hour = 13, dt_minute = 37,
          dt_second = 4, dt_microsecond = 0, dt_tzinfo = utc\<rparr>"
  by code_simp

section \<open>Reading a timestamp string\<close>

lemma re_classes_set:
  "(w, r) \<in> set (re_classes ps s) \<longleftrightarrow> s = w @ r \<and> class_text ps w"
proof (induction ps s arbitrary: w rule: re_classes.induct)
  case (1 s)
  then show ?case by (auto simp: class_text_def)
next
  case (2 p ps)
  then show ?case by (auto simp: class_text_def list_all2_Cons1)
next
  case (3 p ps c cs)
  show ?case
  proof (cases "p c")
    case True
    have "(w, r) \<in> set (re_classes (p # ps) (c # cs)) \<longleftrightarrow>
          (\<exists>w'. w = c # w' \<and> (w', r) \<in> set (re_classes ps cs))"
      using True by force
    also have "\<dots> \<longleftrightarrow> (\<exists>w'. w = c # w' \<and> cs = w' @ r \<and> class_text ps w')"
      using 3 True by simp
    also have "\<dots> \<longleftrightarrow> c # cs = w @ r \<and> class_text (p # ps) w"
      using True by (auto simp: class_text_def list_all2_Cons1)
    finally show ?thesis .
  next
    case False
    then show ?thesis by (auto simp: class_text_def list_all2_Cons1)
  qed
qed

lemma re_group_set:
  "(w, r) \<in> set (re_group alts s) \<longleftrightarrow> s = w @ r \<and> group_text alts w"
  by (auto simp: re_group_def group_text_def re_classes_set)

lemma class_text_single: "class_text [p] w \<longleftrightarrow> (\<exists>c. w = [c] \<and> p c)"
  by (auto simp: class_text_def list_all2_Cons1)

lemma bind_group:
  "y \<in> set (List.bind (re_group alts s) (\<lambda>(w, r). F w r)) \<longleftrightarrow>
   (\<exists>w r. s = w @ r \<and> group_text alts w \<and> y \<in> set (F w r))"
proof -
  have "y \<in> set (List.bind (re_group alts s) (\<lambda>(w, r). F w r)) \<longleftrightarrow>
        (\<exists>w r. (w, r) \<in> set (re_group alts s) \<and> y \<in> set (F w r))"
    by (auto simp: set_list_bind)
  then show ?thesis by (simp add: re_group_set)
qed

lemma bind_char:
  "y \<in> set (List.bind (re_classes [p] s) (\<lambda>(x, r). F r)) \<longleftrightarrow>
   (\<exists>c r. s = c # r \<and> p c \<and> y \<in> set (F r))"
proof -
  have "y \<in> set (List.bind (re_classes [p] s) (\<lambda>(x, r). F r)) \<longleftrightarrow>
        (\<exists>w r. (w, r) \<in> set (re_classes [p] s) \<and> y \<in> set (F r))"
    by (auto simp: set_list_bind)
  then show ?thesis by (auto simp: re_classes_set class_text_single)
qed

lemma bind_groupI:
  "group_text alts w \<Longrightarrow> y \<in> set (F w r) \<Longrightarrow>
   y \<in> set (List.bind (re_group alts (w @ r)) (\<lambda>(w, r). F w r))"
  by (auto simp: bind_group)

lemma bind_charI:
  "p c \<Longrightarrow> y \<in> set (F r) \<Longrightarrow> y \<in> set (List.bind (re_classes [p] (c # r)) (\<lambda>(x, r). F r))"
  by (auto simp: bind_char)

lemma format_regex_set:
  "((Y, m, d, H, M, S, f), r) \<in> set (format_regex s) \<longleftrightarrow>
   (\<exists>p. s = p @ r \<and> reads_as p (Y, m, d, H, M, S, f))"
proof
  assume "((Y, m, d, H, M, S, f), r) \<in> set (format_regex s)"
  then show "\<exists>p. s = p @ r \<and> reads_as p (Y, m, d, H, M, S, f)"
    unfolding format_regex_def
    by (simp add: bind_group bind_char is_char_def reads_as.simps) (elim exE conjE, simp)
next
  assume "\<exists>p. s = p @ r \<and> reads_as p (Y, m, d, H, M, S, f)"
  then obtain t z where s: "s = Y @ CHR ''-'' # m @ CHR ''-'' # d @ t # H @ CHR '':'' # M @ CHR '':'' # S @ CHR ''.'' # f @ z # r"
    and l: "is_letter CHR ''T'' CHR ''t'' t" "is_letter CHR ''Z'' CHR ''z'' z"
    and g: "group_text directive_Y Y" "group_text directive_m m" "group_text directive_d d"
      "group_text directive_H H" "group_text directive_M M" "group_text directive_S S"
      "group_text directive_f f"
    by (auto simp: reads_as.simps)
  have c: "is_char CHR ''-'' CHR ''-''" "is_char CHR '':'' CHR '':''" "is_char CHR ''.'' CHR ''.''"
    by (simp_all add: is_char_def)
  show "((Y, m, d, H, M, S, f), r) \<in> set (format_regex s)"
    unfolding format_regex_def s
    by (intro bind_groupI bind_charI g l c) simp
qed

lemma in_range_digit:
  "in_range CHR ''0'' CHR ''1'' c \<Longrightarrow> is_digit c"
  "in_range CHR ''0'' CHR ''2'' c \<Longrightarrow> is_digit c"
  "in_range CHR ''0'' CHR ''3'' c \<Longrightarrow> is_digit c"
  "in_range CHR ''0'' CHR ''5'' c \<Longrightarrow> is_digit c"
  "in_range CHR ''1'' CHR ''2'' c \<Longrightarrow> is_digit c"
  "in_range CHR ''1'' CHR ''9'' c \<Longrightarrow> is_digit c"
  by (simp_all add: in_range_def is_digit_def)

lemma is_char_digit:
  "is_char CHR ''0'' c \<Longrightarrow> is_digit c"
  "is_char CHR ''1'' c \<Longrightarrow> is_digit c"
  "is_char CHR ''2'' c \<Longrightarrow> is_digit c"
  "is_char CHR ''3'' c \<Longrightarrow> is_digit c"
  "is_char CHR ''6'' c \<Longrightarrow> is_digit c"
  by (simp_all add: is_char_def in_range_def is_digit_def)

lemma separator_not_digit:
  "\<not> is_digit CHR ''-''" "\<not> is_digit CHR '':''" "\<not> is_digit CHR ''.''" "\<not> is_digit CHR '' ''"
  "is_letter CHR ''T'' CHR ''t'' c \<Longrightarrow> \<not> is_digit c"
  "is_letter CHR ''Z'' CHR ''z'' c \<Longrightarrow> \<not> is_digit c"
  "is_letter CHR ''T'' CHR ''t'' c \<Longrightarrow> c \<noteq> CHR '' ''"
  by (auto simp: is_letter_def in_range_def is_digit_def)

lemma group_digits:
  "group_text directive_Y w \<Longrightarrow> digits w"
  "group_text directive_m w \<Longrightarrow> digits w"
  "group_text directive_H w \<Longrightarrow> digits w"
  "group_text directive_M w \<Longrightarrow> digits w"
  "group_text directive_S w \<Longrightarrow> digits w"
  "group_text directive_f w \<Longrightarrow> digits w"
  by (auto simp: group_text_def class_text_def list_all2_Cons1 digits_def
      directive_Y_def directive_m_def directive_H_def directive_M_def directive_S_def directive_f_def
      dest: in_range_digit is_char_digit)

lemma literal_digit:
  "is_digit CHR ''0''" "is_digit CHR ''1''" "is_digit CHR ''2''" "is_digit CHR ''3''" "is_digit CHR ''6''"
  by (simp_all add: in_range_def is_digit_def)

lemma group_d_digits:
  "group_text directive_d w \<Longrightarrow> digits w \<or> (\<exists>c. w = [CHR '' '', c] \<and> is_digit c)"
  by (auto simp: group_text_def class_text_def list_all2_Cons1 digits_def directive_d_def is_char_def
      literal_digit intro: in_range_digit)

lemma digit_run_unique:
  "\<forall>c\<in>set w. is_digit c \<Longrightarrow> \<forall>c\<in>set w'. is_digit c \<Longrightarrow> \<not> is_digit a \<Longrightarrow> \<not> is_digit a' \<Longrightarrow>
   w @ a # x = w' @ a' # x' \<Longrightarrow> w = w' \<and> a = a' \<and> x = x'"
proof (induction w arbitrary: w')
  case Nil
  then show ?case by (cases w') auto
next
  case (Cons c w)
  then show ?case by (cases w') auto
qed

lemma digits_unique:
  "digits w \<Longrightarrow> digits w' \<Longrightarrow> \<not> is_digit a \<Longrightarrow> \<not> is_digit a' \<Longrightarrow>
   w @ a # x = w' @ a' # x' \<Longrightarrow> w = w' \<and> a = a' \<and> x = x'"
  unfolding digits_def using digit_run_unique by blast

lemma day_unique:
  assumes "group_text directive_d w" "group_text directive_d w'"
    and "is_letter CHR ''T'' CHR ''t'' a" "is_letter CHR ''T'' CHR ''t'' a'"
    and "w @ a # x = w' @ a' # x'"
  shows "w = w' \<and> a = a' \<and> x = x'"
proof -
  have na: "\<not> is_digit a" "\<not> is_digit a'" using assms(3,4) by (simp_all add: separator_not_digit)
  consider (dd) "digits w" "digits w'"
    | (ds) c' where "digits w" "w' = [CHR '' '', c']"
    | (sd) c where "w = [CHR '' '', c]" "digits w'"
    | (ss) c c' where "w = [CHR '' '', c]" "w' = [CHR '' '', c']"
    using group_d_digits [OF assms(1)] group_d_digits [OF assms(2)] by blast
  then show ?thesis
  proof cases
    case dd
    then show ?thesis using digits_unique na assms(5) by blast
  next
    case ds
    then obtain c0 w0 where "w = c0 # w0" "is_digit c0" by (cases w) (auto simp: digits_def)
    then show ?thesis using ds assms(5) separator_not_digit(4) by auto
  next
    case sd
    then obtain c0 w0 where "w' = c0 # w0" "is_digit c0" by (cases w') (auto simp: digits_def)
    then show ?thesis using sd assms(5) separator_not_digit(4) by auto
  next
    case ss
    then show ?thesis using assms(5) by auto
  qed
qed

lemma reads_unique:
  assumes "reads_as p (Y, m, d, H, M, S, f)" and "reads_as p' (Y', m', d', H', M', S', f')"
    and "p @ r = p' @ r'"
  shows "(Y, m, d, H, M, S, f) = (Y', m', d', H', M', S', f') \<and> r = r'"
proof -
  from assms(1) obtain t z where
    p: "p = Y @ CHR ''-'' # m @ CHR ''-'' # d @ t # H @ CHR '':'' # M @ CHR '':'' # S @ CHR ''.'' # f @ [z]"
    and l: "is_letter CHR ''T'' CHR ''t'' t" "is_letter CHR ''Z'' CHR ''z'' z"
    and g: "group_text directive_Y Y" "group_text directive_m m" "group_text directive_d d"
      "group_text directive_H H" "group_text directive_M M" "group_text directive_S S"
      "group_text directive_f f"
    by (auto simp: reads_as.simps)
  from assms(2) obtain t' z' where
    p': "p' = Y' @ CHR ''-'' # m' @ CHR ''-'' # d' @ t' # H' @ CHR '':'' # M' @ CHR '':'' # S' @ CHR ''.'' # f' @ [z']"
    and l': "is_letter CHR ''T'' CHR ''t'' t'" "is_letter CHR ''Z'' CHR ''z'' z'"
    and g': "group_text directive_Y Y'" "group_text directive_m m'" "group_text directive_d d'"
      "group_text directive_H H'" "group_text directive_M M'" "group_text directive_S S'"
      "group_text directive_f f'"
    by (auto simp: reads_as.simps)
  note nd = separator_not_digit
  have e0: "Y @ CHR ''-'' # (m @ CHR ''-'' # d @ t # H @ CHR '':'' # M @ CHR '':'' # S @ CHR ''.'' # f @ z # r) =
            Y' @ CHR ''-'' # (m' @ CHR ''-'' # d' @ t' # H' @ CHR '':'' # M' @ CHR '':'' # S' @ CHR ''.'' # f' @ z' # r')"
    using assms(3) p p' by simp
  from digits_unique [OF group_digits(1) [OF g(1)] group_digits(1) [OF g'(1)] nd(1) nd(1) e0]
  have Y: "Y = Y'" and e1: "m @ CHR ''-'' # (d @ t # H @ CHR '':'' # M @ CHR '':'' # S @ CHR ''.'' # f @ z # r) =
      m' @ CHR ''-'' # (d' @ t' # H' @ CHR '':'' # M' @ CHR '':'' # S' @ CHR ''.'' # f' @ z' # r')"
    by simp_all
  from digits_unique [OF group_digits(2) [OF g(2)] group_digits(2) [OF g'(2)] nd(1) nd(1) e1]
  have m: "m = m'" and e2: "d @ t # (H @ CHR '':'' # M @ CHR '':'' # S @ CHR ''.'' # f @ z # r) =
      d' @ t' # (H' @ CHR '':'' # M' @ CHR '':'' # S' @ CHR ''.'' # f' @ z' # r')"
    by simp_all
  from day_unique [OF g(3) g'(3) l(1) l'(1) e2]
  have d: "d = d'" and e3: "H @ CHR '':'' # (M @ CHR '':'' # S @ CHR ''.'' # f @ z # r) =
      H' @ CHR '':'' # (M' @ CHR '':'' # S' @ CHR ''.'' # f' @ z' # r')"
    by simp_all
  from digits_unique [OF group_digits(3) [OF g(4)] group_digits(3) [OF g'(4)] nd(2) nd(2) e3]
  have H: "H = H'" and e4: "M @ CHR '':'' # (S @ CHR ''.'' # f @ z # r) = M' @ CHR '':'' # (S' @ CHR ''.'' # f' @ z' # r')"
    by simp_all
  from digits_unique [OF group_digits(4) [OF g(5)] group_digits(4) [OF g'(5)] nd(2) nd(2) e4]
  have M: "M = M'" and e5: "S @ CHR ''.'' # (f @ z # r) = S' @ CHR ''.'' # (f' @ z' # r')"
    by simp_all
  from digits_unique [OF group_digits(5) [OF g(6)] group_digits(5) [OF g'(6)] nd(3) nd(3) e5]
  have S: "S = S'" and e6: "f @ z # r = f' @ z' # r'"
    by simp_all
  from digits_unique [OF group_digits(6) [OF g(7)] group_digits(6) [OF g'(7)] nd(6) [OF l(2)] nd(6) [OF l'(2)] e6]
  have "f = f'" "r = r'" by simp_all
  then show ?thesis using Y m d H M S by simp
qed

lemma group_H_range: "group_text directive_H w \<Longrightarrow> 0 \<le> int_of_text w \<and> int_of_text w \<le> 23"
  by (auto simp: group_text_def class_text_def list_all2_Cons1 directive_H_def
      int_of_text_def is_digit_def in_range_def is_char_def)

lemma group_M_range: "group_text directive_M w \<Longrightarrow> 0 \<le> int_of_text w \<and> int_of_text w \<le> 59"
  by (auto simp: group_text_def class_text_def list_all2_Cons1 directive_M_def
      int_of_text_def is_digit_def in_range_def is_char_def)

lemma group_S_range: "group_text directive_S w \<Longrightarrow> 0 \<le> int_of_text w"
  by (auto simp: group_text_def class_text_def list_all2_Cons1 directive_S_def
      int_of_text_def is_digit_def in_range_def is_char_def)

lemma group_f_range:
  "group_text directive_f w \<Longrightarrow>
   0 \<le> int_of_text (w @ replicate (6 - length w) CHR ''0'') \<and>
   int_of_text (w @ replicate (6 - length w) CHR ''0'') \<le> 999999"
  by (auto simp: group_text_def class_text_def list_all2_Cons1 directive_f_def
      int_of_text_def is_digit_def in_range_def eval_nat_numeral)

lemma strptime_reads:
  assumes "reads_as s (Y, m, d, H, M, S, f)"
  shows "strptime s =
           new_datetime (int_of_text Y) (int_of_text m) (int_of_text d)
             (int_of_text H) (int_of_text M) (int_of_text S)
             (int_of_text (f @ replicate (6 - length f) CHR ''0'')) None"
proof -
  have mem: "((Y, m, d, H, M, S, f), []) \<in> set (format_regex s)"
    using assms by (simp only: format_regex_set) auto
  then obtain x other where fr: "format_regex s = x # other"
    by (cases "format_regex s") auto
  obtain Y' m' d' H' M' S' f' r' where x: "x = ((Y', m', d', H', M', S', f'), r')"
    by (cases x) auto
  have "((Y', m', d', H', M', S', f'), r') \<in> set (format_regex s)"
    using fr x by simp
  then obtain p' where p': "s = p' @ r'" "reads_as p' (Y', m', d', H', M', S', f')"
    by (simp only: format_regex_set) auto
  have "s @ [] = p' @ r'" using p'(1) by simp
  from reads_unique [OF assms p'(2) this]
  have "(Y', m', d', H', M', S', f') = (Y, m, d, H, M, S, f)" "r' = []" by simp_all
  then show ?thesis using fr x by (simp add: strptime_def)
qed

lemma strptime_Inr_reads:
  assumes "strptime s = Inr dt"
  shows "\<exists>Y m d H M S f. reads_as s (Y, m, d, H, M, S, f)"
proof -
  from assms obtain x other where fr: "format_regex s = x # other"
    by (cases "format_regex s") (auto simp: strptime_def)
  obtain Y m d H M S f r where x: "x = ((Y, m, d, H, M, S, f), r)"
    by (cases x) auto
  have r: "r = []" using assms fr x by (auto simp: strptime_def split: if_splits)
  have "((Y, m, d, H, M, S, f), r) \<in> set (format_regex s)" using fr x by simp
  then have "reads_as s (Y, m, d, H, M, S, f)"
    using r by (simp only: format_regex_set) auto
  then show ?thesis by blast
qed

lemma strptime_error: "strptime s = Inl e \<Longrightarrow> e = ValueError"
  by (auto simp: strptime_def new_datetime_def split: list.splits if_splits)

lemma reads_valid_time:
  assumes "reads_as s (Y, m, d, H, M, S, f)"
  shows "valid_time (int_of_text H) (int_of_text M) (int_of_text S)
           (int_of_text (f @ replicate (6 - length f) CHR ''0'')) \<longleftrightarrow> int_of_text S \<le> 59"
proof -
  from assms have "group_text directive_H H" "group_text directive_M M" "group_text directive_S S"
    "group_text directive_f f" by (auto simp: reads_as.simps)
  then show ?thesis
    using group_H_range [of H] group_M_range [of M] group_S_range [of S] group_f_range [of f]
    by (auto simp: valid_time_def)
qed

lemma datetime_from_str_iff:
  "datetime_from_str s = Inr dt \<longleftrightarrow>
     (\<exists>Y m d H M S f. reads_as s (Y, m, d, H, M, S, f) \<and>
        valid_date (int_of_text Y) (int_of_text m) (int_of_text d) \<and> int_of_text S \<le> 59 \<and>
        dt = \<lparr>dt_year = int_of_text Y, dt_month = int_of_text m, dt_day = int_of_text d,
              dt_hour = int_of_text H, dt_minute = int_of_text M, dt_second = int_of_text S,
              dt_microsecond = int_of_text (f @ replicate (6 - length f) CHR ''0''),
              dt_tzinfo = utc\<rparr>)"
  (is "?L \<longleftrightarrow> ?R")
proof
  assume ?L
  then obtain dt0 where dt0: "strptime s = Inr dt0" "dt = dt0\<lparr>dt_tzinfo := utc\<rparr>"
    by (auto simp: datetime_from_str_def split: sum.splits)
  from strptime_Inr_reads [OF dt0(1)] obtain Y m d H M S f where
    rd: "reads_as s (Y, m, d, H, M, S, f)" by blast
  let ?us = "int_of_text (f @ replicate (6 - length f) CHR ''0'')"
  have new: "new_datetime (int_of_text Y) (int_of_text m) (int_of_text d)
             (int_of_text H) (int_of_text M) (int_of_text S) ?us None = Inr dt0"
    using strptime_reads [OF rd] dt0(1) by simp
  then have v: "valid_date (int_of_text Y) (int_of_text m) (int_of_text d)"
    "valid_time (int_of_text H) (int_of_text M) (int_of_text S) ?us"
    and eq: "dt0 = \<lparr>dt_year = int_of_text Y, dt_month = int_of_text m, dt_day = int_of_text d,
              dt_hour = int_of_text H, dt_minute = int_of_text M, dt_second = int_of_text S,
              dt_microsecond = ?us, dt_tzinfo = None\<rparr>"
    by (auto simp: new_datetime_def split: if_splits)
  have S: "int_of_text S \<le> 59" using v(2) reads_valid_time [OF rd] by simp
  have "dt = \<lparr>dt_year = int_of_text Y, dt_month = int_of_text m, dt_day = int_of_text d,
              dt_hour = int_of_text H, dt_minute = int_of_text M, dt_second = int_of_text S,
              dt_microsecond = ?us, dt_tzinfo = utc\<rparr>"
    using dt0(2) eq by simp
  then show ?R using rd v(1) S by blast
next
  assume ?R
  then obtain Y m d H M S f where rd: "reads_as s (Y, m, d, H, M, S, f)"
    and v: "valid_date (int_of_text Y) (int_of_text m) (int_of_text d)" "int_of_text S \<le> 59"
    and dt: "dt = \<lparr>dt_year = int_of_text Y, dt_month = int_of_text m, dt_day = int_of_text d,
              dt_hour = int_of_text H, dt_minute = int_of_text M, dt_second = int_of_text S,
              dt_microsecond = int_of_text (f @ replicate (6 - length f) CHR ''0''),
              dt_tzinfo = utc\<rparr>"
    by blast
  have "valid_time (int_of_text H) (int_of_text M) (int_of_text S)
           (int_of_text (f @ replicate (6 - length f) CHR ''0''))"
    using v(2) reads_valid_time [OF rd] by simp
  then show ?L using strptime_reads [OF rd] v(1) dt
    by (simp add: datetime_from_str_def new_datetime_def)
qed

lemma datetime_from_str_error: "datetime_from_str s = Inl e \<Longrightarrow> e = ValueError"
  by (auto simp: datetime_from_str_def split: sum.splits dest: strptime_error)

text \<open>
  Claim C5, as the code has it. \<^verbatim>\<open>datetime_from_str\<close> returns an instant exactly when
  the string reads as year, month, day, hour, minute, second and fraction in the texts
  that the directives of \<^verbatim>\<open>strptime\<close> admit (four digits for the year, one or two digits
  for the next five, one to six for the fraction, the separators of the format between
  them, \<^verbatim>\<open>T\<close> and \<^verbatim>\<open>Z\<close> in either case), the date exists and the second is at most 59.
  The instant then has these fields and is tagged UTC. In every other case the call
  raises \<^verbatim>\<open>ValueError\<close>.
\<close>

theorem datetime_from_str_accepts:
  "(datetime_from_str s = Inr dt \<longleftrightarrow>
     (\<exists>Y m d H M S f. reads_as s (Y, m, d, H, M, S, f) \<and>
        valid_date (int_of_text Y) (int_of_text m) (int_of_text d) \<and> int_of_text S \<le> 59 \<and>
        dt = \<lparr>dt_year = int_of_text Y, dt_month = int_of_text m, dt_day = int_of_text d,
              dt_hour = int_of_text H, dt_minute = int_of_text M, dt_second = int_of_text S,
              dt_microsecond = int_of_text (f @ replicate (6 - length f) CHR ''0''),
              dt_tzinfo = utc\<rparr>)) \<and>
   (datetime_from_str s = Inl ValueError \<or> (\<exists>dt'. datetime_from_str s = Inr dt'))"
proof -
  have "datetime_from_str s = Inl ValueError \<or> (\<exists>dt'. datetime_from_str s = Inr dt')"
    using datetime_from_str_error [of s] by (cases "datetime_from_str s") auto
  then show ?thesis using datetime_from_str_iff [of s dt] by blast
qed

text \<open>
  The claim as it is written fails in both directions: a string of the exact pattern that
  names the 30th of February is refused, and a string with one-digit fields and the
  letters in lower case is read.
\<close>

theorem datetime_from_str_exact_pattern_counterexample:
  "matches_format ''2021-02-30T00:00:00.0Z'' \<and>
   datetime_from_str ''2021-02-30T00:00:00.0Z'' = Inl ValueError \<and>
   \<not> matches_format ''2021-6-5t1:2:3.5z'' \<and>
   datetime_from_str ''2021-6-5t1:2:3.5z'' =
     Inr \<lparr>dt_year = 2021, dt_month = 6, dt_day = 5, dt_hour = 1, dt_minute = 2, dt_second = 3,
          dt_microsecond = 500000, dt_tzinfo = utc\<rparr>"
proof (intro conjI)
  show "matches_format ''2021-02-30T00:00:00.0Z''"
    by (simp add: matches_format_def class_text_def is_digit_def in_range_def is_char_def
        eval_nat_numeral)
  show "\<not> matches_format ''2021-6-5t1:2:3.5z''"
    by (simp add: matches_format_def class_text_def is_digit_def in_range_def is_char_def
        eval_nat_numeral)
  show "datetime_from_str ''2021-02-30T00:00:00.0Z'' = Inl ValueError"
    by code_simp
  show "datetime_from_str ''2021-6-5t1:2:3.5z'' =
     Inr \<lparr>dt_year = 2021, dt_month = 6, dt_day = 5, dt_hour = 1, dt_minute = 2, dt_second = 3,
          dt_microsecond = 500000, dt_tzinfo = utc\<rparr>"
    by code_simp
qed

theorem datetime_from_str_accepts_witness:
  "datetime_from_str ''1999-12-31T23:59:59.999Z'' =
     Inr \<lparr>dt_year = 1999, dt_month = 12, dt_day = 31, dt_hour = 23, dt_minute = 59,
          dt_second = 59, dt_microsecond = 999000, dt_tzinfo = utc\<rparr>"
proof -
  let ?s = "''1999-12-31T23:59:59.999Z''"
  let ?dt = "\<lparr>dt_year = 1999, dt_month = 12, dt_day = 31, dt_hour = 23, dt_minute = 59,
          dt_second = 59, dt_microsecond = 999000, dt_tzinfo = utc\<rparr>"
  have rd: "reads_as ?s (''1999'', ''12'', ''31'', ''23'', ''59'', ''59'', ''999'')"
    by (simp add: reads_as.simps group_text_def class_text_def directive_Y_def directive_m_def
        directive_d_def directive_H_def directive_M_def directive_S_def directive_f_def
        is_digit_def in_range_def is_char_def is_letter_def)
  have n: "int_of_text ''1999'' = 1999" "int_of_text ''12'' = 12" "int_of_text ''31'' = 31"
    "int_of_text ''23'' = 23" "int_of_text ''59'' = 59"
    "int_of_text (''999'' @ replicate (6 - length ''999'') CHR ''0'') = 999000"
    by (simp_all add: int_of_text_def is_digit_def in_range_def eval_nat_numeral)
  have v: "valid_date 1999 12 31"
    by (simp add: valid_date_def days_in_month_def DAYS_IN_MONTH_def is_leap_def)
  have "\<exists>Y m d H M S f. reads_as ?s (Y, m, d, H, M, S, f) \<and>
        valid_date (int_of_text Y) (int_of_text m) (int_of_text d) \<and> int_of_text S \<le> 59 \<and>
        ?dt = \<lparr>dt_year = int_of_text Y, dt_month = int_of_text m, dt_day = int_of_text d,
              dt_hour = int_of_text H, dt_minute = int_of_text M, dt_second = int_of_text S,
              dt_microsecond = int_of_text (f @ replicate (6 - length f) CHR ''0''),
              dt_tzinfo = utc\<rparr>"
    apply (rule exI [of _ "''1999''"], rule exI [of _ "''12''"], rule exI [of _ "''31''"])
    apply (rule exI [of _ "''23''"], rule exI [of _ "''59''"], rule exI [of _ "''59''"])
    apply (rule exI [of _ "''999''"])
    apply (simp only: n)
    apply (intro conjI rd v refl)
    apply simp
    done
  then show ?thesis
    by (rule datetime_from_str_accepts [of ?s ?dt, THEN conjunct1, THEN iffD2])
qed

end
